theory Spec2Isabelle
  imports Main "HOL-Library.Char_ord" "HOL-Library.List_Lexorder"
begin

section \<open>Bytes, UTF-8 and the JSON codec of the write-ahead log\<close>

text \<open>
  A Go \<open>string\<close> is a finite sequence of bytes, compared bytewise and lexicographically;
  it is modelled by \<^typ>\<open>string\<close>, whose characters are the 256 byte values, with the
  order of \<open>Char_ord\<close> and \<open>List_Lexorder\<close>. \<open>of_char\<close> reads a byte as a number and
  \<open>char_of\<close> writes one. The masks and shifts of the library code are written as
  \<open>mod\<close>, \<open>div\<close> and multiplication by powers of two.
\<close>

definition RuneError :: nat where
  "RuneError = 0xFFFD"

definition MaxRune :: nat where
  "MaxRune = 0x10FFFF"

text \<open>
  \<open>unicode/utf8\<close>: the table \<open>first\<close> gives, for a leading byte, the length of the
  sequence and the range accepted for the second byte.
\<close>

definition first_size :: "nat \<Rightarrow> nat" where
  "first_size p0 = (if p0 < 0xE0 then 2 else if p0 < 0xF0 then 3 else 4)"

definition accept_lo :: "nat \<Rightarrow> nat" where
  "accept_lo p0 = (if p0 = 0xE0 then 0xA0 else if p0 = 0xF0 then 0x90 else 0x80)"

definition accept_hi :: "nat \<Rightarrow> nat" where
  "accept_hi p0 = (if p0 = 0xED then 0x9F else if p0 = 0xF4 then 0x8F else 0xBF)"

fun DecodeRune :: "string \<Rightarrow> nat \<times> nat" where
  "DecodeRune [] = (RuneError, 0)"
| "DecodeRune (c0 # p) =
     (let p0 = of_char c0 in
      if p0 < 0x80 then (p0, 1)
      else if p0 < 0xC2 \<or> 0xF4 < p0 then (RuneError, 1)
      else if Suc (length p) < first_size p0 then (RuneError, 1)
      else
        let b1 = of_char (p ! 0) in
        if b1 < accept_lo p0 \<or> accept_hi p0 < b1 then (RuneError, 1)
        else if first_size p0 \<le> 2 then (p0 mod 32 * 64 + b1 mod 64, 2)
        else
          let b2 = of_char (p ! 1) in
          if b2 < 0x80 \<or> 0xBF < b2 then (RuneError, 1)
          else if first_size p0 \<le> 3
          then (p0 mod 16 * 4096 + b1 mod 64 * 64 + b2 mod 64, 3)
          else
            let b3 = of_char (p ! 2) in
            if b3 < 0x80 \<or> 0xBF < b3 then (RuneError, 1)
            else (p0 mod 8 * 262144 + b1 mod 64 * 4096 + b2 mod 64 * 64 + b3 mod 64, 4))"

definition EncodeRune :: "nat \<Rightarrow> string" where
  "EncodeRune r =
     (if r \<le> 0x7F then [char_of r]
      else if r \<le> 0x7FF then [char_of (0xC0 + r div 64), char_of (0x80 + r mod 64)]
      else if MaxRune < r \<or> (0xD800 \<le> r \<and> r \<le> 0xDFFF)
      then [CHR 0xEF, CHR 0xBF, CHR 0xBD]
      else if r \<le> 0xFFFF
      then [char_of (0xE0 + r div 4096), char_of (0x80 + r div 64 mod 64),
            char_of (0x80 + r mod 64)]
      else [char_of (0xF0 + r div 262144), char_of (0x80 + r div 4096 mod 64),
            char_of (0x80 + r div 64 mod 64), char_of (0x80 + r mod 64)])"

lemma DecodeRune_width: "DecodeRune (c # cs) = (r, n) \<Longrightarrow> 1 \<le> n \<and> n \<le> 4"
  by (auto simp: Let_def split: if_splits)

declare DecodeRune.simps(2) [simp del]

text \<open>\<open>utf8.ValidString\<close>: no position decodes to the error rune of width one.\<close>

function ValidString :: "string \<Rightarrow> bool" where
  "ValidString [] = True"
| "ValidString (c # cs) =
     (case DecodeRune (c # cs) of
        (r, n) \<Rightarrow>
          if r = RuneError \<and> n = 1 then False
          else ValidString (drop n (c # cs)))"
  by pat_completeness auto

termination ValidString
  by (relation "measure length") (auto dest: DecodeRune_width [OF sym])

text \<open>
  What \<open>encoding/json\<close> makes of a Go string, as its documentation has it: "coerced to
  valid UTF-8, replacing invalid bytes with the Unicode replacement rune". Every byte
  that does not begin a well-formed sequence becomes the three bytes of U+FFFD; every
  well-formed sequence is kept. This is the specification the coder below is compared
  with; no function of the program computes it.
\<close>

function coerced :: "string \<Rightarrow> string" where
  "coerced [] = []"
| "coerced (c # cs) =
     (case DecodeRune (c # cs) of
        (r, n) \<Rightarrow>
          (if r = RuneError \<and> n = 1 then [CHR 0xEF, CHR 0xBF, CHR 0xBD] else take n (c # cs))
            @ coerced (drop n (c # cs)))"
  by pat_completeness auto

termination coerced
  by (relation "measure length") (auto dest: DecodeRune_width [OF sym])

subsection \<open>\<open>encoding/json\<close>: writing a string\<close>

text \<open>
  \<open>appendString\<close> with \<open>escapeHTML\<close> set, as \<open>json.Marshal\<close> calls it. Bytes of
  \<open>htmlSafeSet\<close> are copied; the quote and the backslash are escaped with a backslash;
  the other ASCII bytes are written as \<open>\u00XX\<close> (or by their short escapes); a byte that
  does not start a valid UTF-8 sequence is replaced by the escape of U+FFFD; U+2028 and
  U+2029 are written as escapes; every other valid sequence is copied.
\<close>

abbreviation DQ :: char where
  "DQ \<equiv> CHR 0x22"

abbreviation BSL :: char where
  "BSL \<equiv> CHR 0x5C"

definition htmlSafeSet :: "nat \<Rightarrow> bool" where
  "htmlSafeSet b =
     (0x20 \<le> b \<and> b < 0x80 \<and> b \<noteq> 0x22 \<and> b \<noteq> 0x26 \<and> b \<noteq> 0x3C \<and> b \<noteq> 0x3E \<and> b \<noteq> 0x5C)"

definition hex :: "nat \<Rightarrow> char" where
  "hex n = ''0123456789abcdef'' ! n"

function appendString_loop :: "string \<Rightarrow> string" where
  "appendString_loop [] = []"
| "appendString_loop (c # cs) =
     (let b = of_char c in
      if b < 0x80 then
        (if htmlSafeSet b then c # appendString_loop cs
         else if c = BSL \<or> c = DQ then BSL # c # appendString_loop cs
         else if b = 0x08 then BSL # CHR ''b'' # appendString_loop cs
         else if b = 0x0C then BSL # CHR ''f'' # appendString_loop cs
         else if b = 0x0A then BSL # CHR ''n'' # appendString_loop cs
         else if b = 0x0D then BSL # CHR ''r'' # appendString_loop cs
         else if b = 0x09 then BSL # CHR ''t'' # appendString_loop cs
         else BSL # CHR ''u'' # CHR ''0'' # CHR ''0'' # hex (b div 16) # hex (b mod 16)
                # appendString_loop cs)
      else
        (case DecodeRune (take 4 (c # cs)) of
           (r, n) \<Rightarrow>
             if r = RuneError \<and> n = 1
             then BSL # ''ufffd'' @ appendString_loop (drop n (c # cs))
             else if r = 0x2028 \<or> r = 0x2029
             then BSL # ''u202'' @ hex (r mod 16) # appendString_loop (drop n (c # cs))
             else take n (c # cs) @ appendString_loop (drop n (c # cs))))"
  by pat_completeness auto

termination appendString_loop
  by (relation "measure length") (auto dest: DecodeRune_width [OF sym])

definition appendString :: "string \<Rightarrow> string" where
  "appendString src = DQ # appendString_loop src @ [DQ]"

subsection \<open>\<open>encoding/json\<close>: reading a string\<close>

definition hexval :: "char \<Rightarrow> nat option" where
  "hexval c =
     (let b = of_char c in
      if 0x30 \<le> b \<and> b \<le> 0x39 then Some (b - 0x30)
      else if 0x61 \<le> b \<and> b \<le> 0x66 then Some (b - 0x61 + 10)
      else if 0x41 \<le> b \<and> b \<le> 0x46 then Some (b - 0x41 + 10)
      else None)"

text \<open>\<open>getu4\<close> reads the four hexadecimal digits of an escape \<open>\uXXXX\<close> at the head of its
  argument; \<open>None\<close> is the \<open>-1\<close> of the library.\<close>

definition getu4 :: "string \<Rightarrow> nat option" where
  "getu4 s =
     (if length s < 6 \<or> s ! 0 \<noteq> BSL \<or> s ! 1 \<noteq> CHR ''u'' then None
      else
        (case hexval (s ! 2) of None \<Rightarrow> None | Some a \<Rightarrow>
        (case hexval (s ! 3) of None \<Rightarrow> None | Some b \<Rightarrow>
        (case hexval (s ! 4) of None \<Rightarrow> None | Some c \<Rightarrow>
        (case hexval (s ! 5) of None \<Rightarrow> None | Some d \<Rightarrow>
           Some (a * 4096 + b * 256 + c * 16 + d))))))"

definition IsSurrogate :: "nat \<Rightarrow> bool" where
  "IsSurrogate r = (0xD800 \<le> r \<and> r < 0xE000)"

text \<open>\<open>utf16.DecodeRune\<close>; the second argument is \<open>None\<close> when no escape follows.\<close>

definition utf16_DecodeRune :: "nat \<Rightarrow> nat option \<Rightarrow> nat" where
  "utf16_DecodeRune r1 r2 =
     (case r2 of
        None \<Rightarrow> RuneError
      | Some r2' \<Rightarrow>
          if 0xD800 \<le> r1 \<and> r1 < 0xDC00 \<and> 0xDC00 \<le> r2' \<and> r2' < 0xE000
          then (r1 - 0xD800) * 1024 + (r2' - 0xDC00) + 0x10000
          else RuneError)"

definition emit :: "string \<Rightarrow> (string \<times> string) option \<Rightarrow> (string \<times> string) option" where
  "emit out res = (case res of None \<Rightarrow> None | Some (t, rest) \<Rightarrow> Some (out @ t, rest))"

text \<open>
  The scanner's string state and \<open>unquoteBytes\<close> in one pass. The argument starts after
  the opening quote; the result is the decoded string and what follows the closing quote.
  A sequence that is not valid UTF-8 is coerced to U+FFFD. (The library decodes a rune
  within the literal only; a closing quote or a backslash is never a continuation byte,
  so decoding on the rest of the input gives the same rune and width.)
\<close>

function unquote :: "string \<Rightarrow> (string \<times> string) option" where
  "unquote [] = None"
| "unquote (c # cs) =
     (if c = DQ then Some ([], cs)
      else if c = BSL then
        (case cs of
           [] \<Rightarrow> None
         | e # es \<Rightarrow>
             if e = DQ \<or> e = BSL \<or> e = CHR ''/'' then emit [e] (unquote es)
             else if e = CHR ''b'' then emit [CHR 0x08] (unquote es)
             else if e = CHR ''f'' then emit [CHR 0x0C] (unquote es)
             else if e = CHR ''n'' then emit [CHR 0x0A] (unquote es)
             else if e = CHR ''r'' then emit [CHR 0x0D] (unquote es)
             else if e = CHR ''t'' then emit [CHR 0x09] (unquote es)
             else if e = CHR ''u'' then
               (case getu4 (c # cs) of
                  None \<Rightarrow> None
                | Some rr \<Rightarrow>
                    if IsSurrogate rr then
                      (let dec = utf16_DecodeRune rr (getu4 (drop 6 (c # cs))) in
                       if dec \<noteq> RuneError
                       then emit (EncodeRune dec) (unquote (drop 12 (c # cs)))
                       else emit (EncodeRune RuneError) (unquote (drop 6 (c # cs))))
                    else emit (EncodeRune rr) (unquote (drop 6 (c # cs))))
             else None)
      else if of_char c < (0x20 :: nat) then None
      else if of_char c < (0x80 :: nat) then emit [c] (unquote cs)
      else
        (case DecodeRune (c # cs) of
           (rr, n) \<Rightarrow> emit (EncodeRune rr) (unquote (drop n (c # cs)))))"
  by pat_completeness auto

termination unquote
  by (relation "measure length") (auto dest: DecodeRune_width [OF sym])

subsection \<open>\<open>encoding/json\<close>: skipping a value\<close>

definition is_space :: "char \<Rightarrow> bool" where
  "is_space c = (c = CHR '' '' \<or> c = CHR 0x09 \<or> c = CHR 0x0D \<or> c = CHR 0x0A)"

definition skip_space :: "string \<Rightarrow> string" where
  "skip_space s = dropWhile is_space s"

definition starts :: "char \<Rightarrow> string \<Rightarrow> bool" where
  "starts c s = (case s of [] \<Rightarrow> False | d # _ \<Rightarrow> d = c)"

definition is_digit :: "char \<Rightarrow> bool" where
  "is_digit c = (0x30 \<le> (of_char c :: nat) \<and> (of_char c :: nat) \<le> 0x39)"

definition digits1 :: "string \<Rightarrow> string option" where
  "digits1 s = (case s of [] \<Rightarrow> None | d # t \<Rightarrow> if is_digit d then Some (dropWhile is_digit t) else None)"

text \<open>The number grammar of the scanner: an optional sign, \<open>0\<close> or a digit string without
  leading zero, an optional fraction, an optional exponent. The result is the rest.\<close>

definition skip_exponent :: "string \<Rightarrow> string option" where
  "skip_exponent s =
     (if starts (CHR ''e'') s \<or> starts (CHR ''E'') s
      then (let t = tl s in
            if starts (CHR ''+'') t \<or> starts (CHR ''-'') t then digits1 (tl t) else digits1 t)
      else Some s)"

definition skip_fraction :: "string \<Rightarrow> string option" where
  "skip_fraction s =
     (if starts (CHR ''.'') s
      then (case digits1 (tl s) of None \<Rightarrow> None | Some t \<Rightarrow> skip_exponent t)
      else skip_exponent s)"

definition skip_number :: "string \<Rightarrow> string option" where
  "skip_number s =
     (let t = (if starts (CHR ''-'') s then tl s else s) in
      if starts (CHR ''0'') t then skip_fraction (tl t)
      else (case digits1 t of None \<Rightarrow> None | Some u \<Rightarrow> skip_fraction u))"

text \<open>
  A value of any kind, skipped: what the decoder does with the value of a member that
  names no field of the target. The first argument bounds the nesting and the number of
  elements; the length of the input is always enough, since every step consumes a byte.
\<close>

fun skip_value :: "nat \<Rightarrow> string \<Rightarrow> string option"
  and skip_elements :: "nat \<Rightarrow> string \<Rightarrow> string option"
  and skip_members :: "nat \<Rightarrow> string \<Rightarrow> string option" where
  "skip_value 0 s = None"
| "skip_value (Suc k) s =
     (if starts DQ s then map_option snd (unquote (tl s))
      else if starts (CHR ''{'') s then
        (let t = skip_space (tl s) in
         if starts (CHR ''}'') t then Some (tl t) else skip_members k t)
      else if starts (CHR ''['') s then
        (let t = skip_space (tl s) in
         if starts (CHR '']'') t then Some (tl t) else skip_elements k t)
      else if take 4 s = ''true'' then Some (drop 4 s)
      else if take 5 s = ''false'' then Some (drop 5 s)
      else if take 4 s = ''null'' then Some (drop 4 s)
      else skip_number s)"
| "skip_elements 0 s = None"
| "skip_elements (Suc k) s =
     (case skip_value k s of
        None \<Rightarrow> None
      | Some t \<Rightarrow>
          (let u = skip_space t in
           if starts (CHR '','') u then skip_elements k (skip_space (tl u))
           else if starts (CHR '']'') u then Some (tl u)
           else None))"
| "skip_members 0 s = None"
| "skip_members (Suc k) s =
     (if \<not> starts DQ s then None
      else
        (case unquote (tl s) of
           None \<Rightarrow> None
         | Some (name, t) \<Rightarrow>
             (let u = skip_space t in
              if \<not> starts (CHR '':'') u then None
              else
                (case skip_value k (skip_space (tl u)) of
                   None \<Rightarrow> None
                 | Some v \<Rightarrow>
                     (let w = skip_space v in
                      if starts (CHR '','') w then skip_members k (skip_space (tl w))
                      else if starts (CHR ''}'') w then Some (tl w)
                      else None)))))"

subsection \<open>The log record and its JSON form\<close>

text \<open>\<open>walCommand\<close>, with the tags \<open>op\<close>, \<open>key\<close> and \<open>value,omitempty\<close>.\<close>

record walCommand =
  Op :: string
  Key :: string
  Value :: string

definition zero_walCommand :: walCommand where
  "zero_walCommand = \<lparr>Op = [], Key = [], Value = []\<rparr>"

text \<open>
  \<open>json.Marshal\<close> of a \<open>walCommand\<close>: the fields in declaration order, the value left out
  when it is empty. It returns no error for a struct of strings, so the model returns
  the bytes.
\<close>

definition json_Marshal :: "walCommand \<Rightarrow> string" where
  "json_Marshal cmd =
     CHR ''{'' # DQ # ''op'' @ DQ # CHR '':'' # appendString (Op cmd)
     @ CHR '','' # DQ # ''key'' @ DQ # CHR '':'' # appendString (Key cmd)
     @ (if Value cmd = [] then []
        else CHR '','' # DQ # ''value'' @ DQ # CHR '':'' # appendString (Value cmd))
     @ [CHR ''}'']"

text \<open>
  The field a member name selects: the exact name first, then the name up to case
  folding (\<open>foldName\<close>). Folding maps ASCII letters to upper case and a rune to the least
  rune of its fold orbit; the only non-ASCII runes whose orbit holds an ASCII letter are
  U+212A (Kelvin sign, to \<open>K\<close>) and U+017F (long s, to \<open>S\<close>), so every other rune is
  left as it is: it can never match a field name.
\<close>

definition foldRune :: "nat \<Rightarrow> nat" where
  "foldRune r = (if r = 0x212A then 0x4B else if r = 0x17F then 0x53 else r)"

function foldName :: "string \<Rightarrow> string" where
  "foldName [] = []"
| "foldName (c # cs) =
     (if of_char c < (0x80 :: nat) then
        (if CHR ''a'' \<le> c \<and> c \<le> CHR ''z'' then char_of (of_char c - (0x20 :: nat)) else c)
        # foldName cs
      else
        (case DecodeRune (c # cs) of
           (r, n) \<Rightarrow> EncodeRune (foldRune r) @ foldName (drop n (c # cs))))"
  by pat_completeness auto

termination foldName
  by (relation "measure length") (auto dest: DecodeRune_width [OF sym])

datatype field = Field_op | Field_key | Field_value

definition field_of :: "string \<Rightarrow> field option" where
  "field_of name =
     (if name = ''op'' then Some Field_op
      else if name = ''key'' then Some Field_key
      else if name = ''value'' then Some Field_value
      else if foldName name = ''OP'' then Some Field_op
      else if foldName name = ''KEY'' then Some Field_key
      else if foldName name = ''VALUE'' then Some Field_value
      else None)"

definition set_field :: "field \<Rightarrow> string \<Rightarrow> walCommand \<Rightarrow> walCommand" where
  "set_field f v cmd =
     (case f of
        Field_op \<Rightarrow> cmd\<lparr>Op := v\<rparr>
      | Field_key \<Rightarrow> cmd\<lparr>Key := v\<rparr>
      | Field_value \<Rightarrow> cmd\<lparr>Value := v\<rparr>)"

text \<open>
  The members of an object decoded into a \<open>walCommand\<close>, from the opening quote of a
  member name to the closing brace. The value of a field is a string (stored) or \<open>null\<close>
  (ignored); any other value is a type error, and the decoding as a whole fails. A member
  that names no field is skipped; a later member overwrites an earlier one.
\<close>

fun object_members :: "nat \<Rightarrow> walCommand \<Rightarrow> string \<Rightarrow> (walCommand \<times> string) option" where
  "object_members 0 cmd s = None"
| "object_members (Suc k) cmd s =
     (if \<not> starts DQ s then None
      else
        (case unquote (tl s) of
           None \<Rightarrow> None
         | Some (name, t) \<Rightarrow>
             (let u = skip_space t in
              if \<not> starts (CHR '':'') u then None
              else
                (let v = skip_space (tl u);
                     stored =
                       (case field_of name of
                          None \<Rightarrow> map_option (Pair cmd) (skip_value (length v) v)
                        | Some f \<Rightarrow>
                            if starts DQ v
                            then map_option (\<lambda>(x, rest). (set_field f x cmd, rest)) (unquote (tl v))
                            else if take 4 v = ''null'' then Some (cmd, drop 4 v)
                            else None)
                 in
                   (case stored of
                      None \<Rightarrow> None
                    | Some (cmd', r) \<Rightarrow>
                        (let w = skip_space r in
                         if starts (CHR '','') w then object_members k cmd' (skip_space (tl w))
                         else if starts (CHR ''}'') w then Some (cmd', tl w)
                         else None))))))"

text \<open>
  Modelled from the spec: the opcode of the structured record of the database-backed
  variant, an enumeration generated from the protocol description (package \<open>kvpb\<close>), which
  is not among the sources. The spec names the three opcodes; \<open>OP_OTHER\<close> stands for
  every other number the field can hold.
\<close>

datatype WALCommand_Op = OP_PUT | OP_SWAP | OP_DELETE | OP_OTHER nat

datatype error =
    EOF
  | ErrUnexpectedEOF
  | ErrShortWrite
  | DeviceError
  | JSONError
  | CreateWalDirectory error
  | OpenWal error
  | SeekWalStart error
  | SeekWalEnd error
  | ReadWalFrameLength error
  | WalFrameTooLarge nat
  | ReadWalFramePayload error
  | DecodeWalCommand error
  | UnknownWalOp string
  | WalPayloadTooLarge nat
  | WriteWalFrameLength error
  | WriteWalFramePayload error
  | SyncWal error
  | CreateBackerDirectory error
  | OpenSqliteDb error
  | InitializeSqliteSchema error
  | QueryWalLog error
  | ScanWalRow error
  | DecodeWalPayload error
  | UnknownWalOpcode WALCommand_Op
  | IterateWalRows error
  | EncodeWalPayload error
  | AppendWalRow error

text \<open>
  \<open>json.Unmarshal\<close> into a fresh \<open>walCommand\<close>: white space, then an object or \<open>null\<close>
  (which stores nothing), then white space to the end of the payload. A syntax error and
  a type error are both \<open>JSONError\<close>.
\<close>

definition json_Unmarshal :: "string \<Rightarrow> error + walCommand" where
  "json_Unmarshal data =
     (let s = skip_space data in
      if starts (CHR ''{'') s then
        (let t = skip_space (tl s) in
         (case (if starts (CHR ''}'') t then Some (zero_walCommand, tl t)
                else object_members (length t) zero_walCommand t) of
            None \<Rightarrow> Inl JSONError
          | Some (cmd, rest) \<Rightarrow> if skip_space rest = [] then Inr cmd else Inl JSONError))
      else if take 4 s = ''null'' \<and> skip_space (drop 4 s) = [] then Inr zero_walCommand
      else Inl JSONError)"

section \<open>Properties of the UTF-8 coder\<close>

lemma dm: "b < m \<Longrightarrow> (a * m + b) div m = (a::nat)" "b < m \<Longrightarrow> (a * m + b) mod m = b"
  by simp_all

lemma low_bits_aux: "k * m \<le> p \<Longrightarrow> p < k * m + m \<Longrightarrow> p mod m = p - k * (m::nat)"
proof -
  assume a: "k * m \<le> p" "p < k * m + m"
  then have "p = k * m + (p - k * m)" "p - k * m < m" by auto
  then show ?thesis using dm(2) [of "p - k * m" m k] by metis
qed

lemma low_bits:
  "192 \<le> p \<Longrightarrow> p \<le> 223 \<Longrightarrow> p mod 32 = p - (192::nat)"
  "224 \<le> p \<Longrightarrow> p \<le> 239 \<Longrightarrow> p mod 16 = p - (224::nat)"
  "240 \<le> p \<Longrightarrow> p \<le> 247 \<Longrightarrow> p mod 8 = p - (240::nat)"
  "128 \<le> p \<Longrightarrow> p \<le> 191 \<Longrightarrow> p mod 64 = p - (128::nat)"
  using low_bits_aux [of 6 32 p] low_bits_aux [of 14 16 p] low_bits_aux [of 30 8 p]
    low_bits_aux [of 2 64 p] by simp_all

lemma split3:
  assumes "y < 64" "z < 64"
  shows "(x * 4096 + y * 64 + z) div 4096 = (x::nat)" 
    "(x * 4096 + y * 64 + z) div 64 mod 64 = y" "(x * 4096 + y * 64 + z) mod 64 = z"
proof -
  let ?r = "x * 4096 + y * 64 + z"
  have e: "?r = (x * 64 + y) * 64 + z" by simp
  have f: "?r = x * 4096 + (y * 64 + z)" by simp
  have g: "y * 64 + z < 4096" using assms by simp
  show "?r div 4096 = x" using dm(1) [OF g, of x] f by metis
  have "?r div 64 = x * 64 + y" using dm(1) [OF assms(2), of "x * 64 + y"] e by metis
  then show "?r div 64 mod 64 = y" using dm(2) [OF assms(1), of x] by metis
  show "?r mod 64 = z" using dm(2) [OF assms(2), of "x * 64 + y"] e by metis
qed

lemma split4:
  assumes "y < 64" "z < 64" "w < 64"
  shows "(x * 262144 + y * 4096 + z * 64 + w) div 262144 = (x::nat)" 
    "(x * 262144 + y * 4096 + z * 64 + w) div 4096 mod 64 = y" 
    "(x * 262144 + y * 4096 + z * 64 + w) div 64 mod 64 = z" 
    "(x * 262144 + y * 4096 + z * 64 + w) mod 64 = w"
proof -
  let ?r = "x * 262144 + y * 4096 + z * 64 + w"
  have e: "?r = ((x * 64 + y) * 64 + z) * 64 + w" by simp
  have f: "?r = (x * 64 + y) * 4096 + (z * 64 + w)" by simp
  have f2: "?r = x * 262144 + (y * 4096 + z * 64 + w)" by simp
  have g: "z * 64 + w < 4096" using assms by simp
  have g2: "y * 4096 + z * 64 + w < 262144" using assms by simp
  show "?r div 262144 = x" using dm(1) [OF g2, of x] f2 by metis
  have "?r div 4096 = x * 64 + y" using dm(1) [OF g, of "x * 64 + y"] f by metis
  then show "?r div 4096 mod 64 = y" using dm(2) [OF assms(1), of x] by metis
  have "?r div 64 = (x * 64 + y) * 64 + z" using dm(1) [OF assms(3), of "(x * 64 + y) * 64 + z"] e by metis
  then show "?r div 64 mod 64 = z" using dm(2) [OF assms(2), of "x * 64 + y"] by metis
  show "?r mod 64 = w" using dm(2) [OF assms(3), of "(x * 64 + y) * 64 + z"] e by metis
qed

lemma enc2_arith:
  fixes p b :: nat
  assumes "194 \<le> p" "p \<le> 223" "128 \<le> b" "b \<le> 191"
  defines "r \<equiv> p mod 32 * 64 + b mod 64"
  shows "0x7F < r" "r \<le> 0x7FF" "0xC0 + r div 64 = p" "0x80 + r mod 64 = b"
proof -
  have m: "p mod 32 = p - 192" "b mod 64 = b - 128"
    using assms low_bits(1) [of p] low_bits(4) [of b] by linarith+
  have y: "b - 128 < 64" using assms by linarith
  have r: "r = (p - 192) * 64 + (b - 128)" unfolding r_def m ..
  have d: "r div 64 = p - 192" "r mod 64 = b - 128"
    unfolding r using dm [OF y] by blast+
  show "0x7F < r" "r \<le> 0x7FF" unfolding r using assms by linarith+
  show "0xC0 + r div 64 = p" "0x80 + r mod 64 = b" unfolding d using assms by linarith+
qed

lemma enc3_arith:
  fixes p b1 b2 :: nat
  assumes "224 \<le> p" "p \<le> 239" "(if p = 224 then 160 else 128) \<le> b1"
    "b1 \<le> (if p = 237 then 159 else 191)" "128 \<le> b2" "b2 \<le> 191"
  defines "r \<equiv> p mod 16 * 4096 + b1 mod 64 * 64 + b2 mod 64"
  shows "0x7FF < r" "r \<le> 0xFFFF" "\<not> (0xD800 \<le> r \<and> r \<le> 0xDFFF)"
    "0xE0 + r div 4096 = p" "0x80 + r div 64 mod 64 = b1" "0x80 + r mod 64 = b2"
proof -
  have b1: "128 \<le> b1" "b1 \<le> 191" using assms(3,4) by (auto split: if_splits)
  have m: "p mod 16 = p - 224" "b1 mod 64 = b1 - 128" "b2 mod 64 = b2 - 128"
    using assms b1 low_bits(2) [of p] low_bits(4) [of b1] low_bits(4) [of b2] by linarith+
  have y: "b1 - 128 < 64" "b2 - 128 < 64" using assms b1 by linarith+
  have r: "r = (p - 224) * 4096 + (b1 - 128) * 64 + (b2 - 128)" unfolding r_def m ..
  have d: "r div 4096 = p - 224" "r div 64 mod 64 = b1 - 128" "r mod 64 = b2 - 128"
    unfolding r using split3 [OF y] by blast+
  have lo: "p = 224 \<Longrightarrow> 160 \<le> b1" and hi: "p = 237 \<Longrightarrow> b1 \<le> 159"
    using assms(3,4) by (auto split: if_splits)
  show "0x7FF < r" using lo assms(1) b1 unfolding r by (cases "p = 224") linarith+
  show "r \<le> 0xFFFF" unfolding r using assms b1 by linarith
  show "\<not> (0xD800 \<le> r \<and> r \<le> 0xDFFF)"
    using hi assms(1,2,5,6) b1 unfolding r by (cases "p = 237") linarith+
  show "0xE0 + r div 4096 = p" "0x80 + r div 64 mod 64 = b1" "0x80 + r mod 64 = b2"
    unfolding d using assms b1 by linarith+
qed

lemma enc4_arith:
  fixes p b1 b2 b3 :: nat
  assumes "240 \<le> p" "p \<le> 244" "(if p = 240 then 144 else 128) \<le> b1"
    "b1 \<le> (if p = 244 then 143 else 191)" "128 \<le> b2" "b2 \<le> 191" "128 \<le> b3" "b3 \<le> 191"
  defines "r \<equiv> p mod 8 * 262144 + b1 mod 64 * 4096 + b2 mod 64 * 64 + b3 mod 64"
  shows "0xFFFF < r" "r \<le> 0x10FFFF"
    "0xF0 + r div 262144 = p" "0x80 + r div 4096 mod 64 = b1"
    "0x80 + r div 64 mod 64 = b2" "0x80 + r mod 64 = b3"
proof -
  have b1: "128 \<le> b1" "b1 \<le> 191" using assms(3,4) by (auto split: if_splits)
  have m: "p mod 8 = p - 240" "b1 mod 64 = b1 - 128" "b2 mod 64 = b2 - 128" "b3 mod 64 = b3 - 128"
    using assms b1 low_bits(3) [of p] low_bits(4) [of b1] low_bits(4) [of b2] low_bits(4) [of b3]
    by linarith+
  have y: "b1 - 128 < 64" "b2 - 128 < 64" "b3 - 128 < 64" using assms b1 by linarith+
  have r: "r = (p - 240) * 262144 + (b1 - 128) * 4096 + (b2 - 128) * 64 + (b3 - 128)"
    unfolding r_def m ..
  have d: "r div 262144 = p - 240" "r div 4096 mod 64 = b1 - 128"
    "r div 64 mod 64 = b2 - 128" "r mod 64 = b3 - 128"
    unfolding r using split4 [OF y] by blast+
  have lo: "p = 240 \<Longrightarrow> 144 \<le> b1" and hi: "p = 244 \<Longrightarrow> b1 \<le> 143"
    using assms(3,4) by (auto split: if_splits)
  show "0xFFFF < r" using lo assms(1) b1 unfolding r by (cases "p = 240") linarith+
  show "r \<le> 0x10FFFF" using hi assms(1,2,5,6,7,8) b1 unfolding r by (cases "p = 244") linarith+
  show "0xF0 + r div 262144 = p" "0x80 + r div 4096 mod 64 = b1"
    "0x80 + r div 64 mod 64 = b2" "0x80 + r mod 64 = b3"
    unfolding d using assms b1 by linarith+
qed

lemma list_shape4:
  obtains "cs = []" | c1 where "cs = [c1]" | c1 c2 where "cs = [c1, c2]"
  | c1 c2 c3 t where "cs = c1 # c2 # c3 # t"
  by (metis list.exhaust)

definition seq2 :: "char \<Rightarrow> char \<Rightarrow> bool" where
  "seq2 c c1 = (0xC2 \<le> (of_char c :: nat) \<and> (of_char c :: nat) \<le> 0xDF \<and>
      0x80 \<le> (of_char c1 :: nat) \<and> (of_char c1 :: nat) \<le> 0xBF)"

definition seq3 :: "char \<Rightarrow> char \<Rightarrow> char \<Rightarrow> bool" where
  "seq3 c c1 c2 = (0xE0 \<le> (of_char c :: nat) \<and> (of_char c :: nat) \<le> 0xEF \<and>
      accept_lo (of_char c) \<le> (of_char c1 :: nat) \<and> (of_char c1 :: nat) \<le> accept_hi (of_char c) \<and>
      0x80 \<le> (of_char c2 :: nat) \<and> (of_char c2 :: nat) \<le> 0xBF)"

definition seq4 :: "char \<Rightarrow> char \<Rightarrow> char \<Rightarrow> char \<Rightarrow> bool" where
  "seq4 c c1 c2 c3 = (0xF0 \<le> (of_char c :: nat) \<and> (of_char c :: nat) \<le> 0xF4 \<and>
      accept_lo (of_char c) \<le> (of_char c1 :: nat) \<and> (of_char c1 :: nat) \<le> accept_hi (of_char c) \<and>
      0x80 \<le> (of_char c2 :: nat) \<and> (of_char c2 :: nat) \<le> 0xBF \<and>
      0x80 \<le> (of_char c3 :: nat) \<and> (of_char c3 :: nat) \<le> 0xBF)"

lemma DecodeRune_seq2: "seq2 c c1 \<Longrightarrow> DecodeRune (c # c1 # t) = (of_char c mod 32 * 64 + of_char c1 mod 64, 2)"
  by (simp add: DecodeRune.simps(2) seq2_def Let_def first_size_def accept_lo_def accept_hi_def)

lemma DecodeRune_seq3: "seq3 c c1 c2 \<Longrightarrow> DecodeRune (c # c1 # c2 # t) = (of_char c mod 16 * 4096 + of_char c1 mod 64 * 64 + of_char c2 mod 64, 3)"
  by (simp add: DecodeRune.simps(2) seq3_def Let_def first_size_def)

lemma DecodeRune_seq4: "seq4 c c1 c2 c3 \<Longrightarrow> DecodeRune (c # c1 # c2 # c3 # t) = (of_char c mod 8 * 262144 + of_char c1 mod 64 * 4096 + of_char c2 mod 64 * 64 + of_char c3 mod 64, 4)"
  by (simp add: DecodeRune.simps(2) seq4_def Let_def first_size_def)

lemma DecodeRune_cases:
  assumes "DecodeRune (c # cs) = (r, n)" "\<not> (r = RuneError \<and> n = 1)" "0x80 \<le> (of_char c :: nat)"
  shows "(\<exists>c1 t. cs = c1 # t \<and> seq2 c c1) \<or> (\<exists>c1 c2 t. cs = c1 # c2 # t \<and> seq3 c c1 c2)
     \<or> (\<exists>c1 c2 c3 t. cs = c1 # c2 # c3 # t \<and> seq4 c c1 c2 c3)"
proof (cases cs rule: list_shape4)
  case 1
  then show ?thesis using assms by (auto simp: DecodeRune.simps(2) Let_def first_size_def split: if_splits)
next
  case (2 c1)
  then show ?thesis using assms by (auto simp: DecodeRune.simps(2) Let_def first_size_def seq2_def accept_lo_def accept_hi_def split: if_splits)
next
  case (3 c1 c2)
  then show ?thesis using assms by (auto simp: DecodeRune.simps(2) Let_def first_size_def seq2_def seq3_def accept_lo_def accept_hi_def split: if_splits)
next
  case (4 c1 c2 c3 t)
  then show ?thesis using assms by (auto simp: DecodeRune.simps(2) Let_def first_size_def seq2_def seq3_def seq4_def accept_lo_def accept_hi_def split: if_splits)
qed



lemma EncodeRune_seq2:
  assumes "seq2 c c1"
  shows "EncodeRune (of_char c mod 32 * 64 + of_char c1 mod 64) = [c, c1]"
proof -
  define r :: nat where "r = of_char c mod 32 * 64 + of_char c1 mod 64"
  have h: "194 \<le> (of_char c :: nat)" "(of_char c :: nat) \<le> 223"
    "128 \<le> (of_char c1 :: nat)" "(of_char c1 :: nat) \<le> 191"
    using assms by (simp_all add: seq2_def)
  note A = enc2_arith [OF h, folded r_def]
  have "EncodeRune r = [char_of (0xC0 + r div 64), char_of (0x80 + r mod 64)]"
    using A(1,2) by (simp add: EncodeRune_def)
  also have "\<dots> = [c, c1]" unfolding A(3,4) by simp
  finally show ?thesis unfolding r_def .
qed

lemma EncodeRune_seq3:
  assumes "seq3 c c1 c2"
  shows "EncodeRune (of_char c mod 16 * 4096 + of_char c1 mod 64 * 64 + of_char c2 mod 64)
    = [c, c1, c2]"
proof -
  define r :: nat where
    "r = of_char c mod 16 * 4096 + of_char c1 mod 64 * 64 + of_char c2 mod 64"
  have h: "224 \<le> (of_char c :: nat)" "(of_char c :: nat) \<le> 239"
    "(if (of_char c :: nat) = 224 then 160 else 128) \<le> (of_char c1 :: nat)"
    "(of_char c1 :: nat) \<le> (if (of_char c :: nat) = 237 then 159 else 191)"
    "128 \<le> (of_char c2 :: nat)" "(of_char c2 :: nat) \<le> 191"
    using assms by (auto simp: seq3_def accept_lo_def accept_hi_def split: if_splits)
  note A = enc3_arith [OF h, folded r_def]
  have "EncodeRune r = [char_of (0xE0 + r div 4096), char_of (0x80 + r div 64 mod 64),
      char_of (0x80 + r mod 64)]"
    using A(1,2,3) by (auto simp: EncodeRune_def MaxRune_def)
  also have "\<dots> = [c, c1, c2]" unfolding A(4,5,6) by simp
  finally show ?thesis unfolding r_def .
qed

lemma EncodeRune_seq4:
  assumes "seq4 c c1 c2 c3"
  shows "EncodeRune (of_char c mod 8 * 262144 + of_char c1 mod 64 * 4096
      + of_char c2 mod 64 * 64 + of_char c3 mod 64) = [c, c1, c2, c3]"
proof -
  define r :: nat where
    "r = of_char c mod 8 * 262144 + of_char c1 mod 64 * 4096
      + of_char c2 mod 64 * 64 + of_char c3 mod 64"
  have h: "240 \<le> (of_char c :: nat)" "(of_char c :: nat) \<le> 244"
    "(if (of_char c :: nat) = 240 then 144 else 128) \<le> (of_char c1 :: nat)"
    "(of_char c1 :: nat) \<le> (if (of_char c :: nat) = 244 then 143 else 191)"
    "128 \<le> (of_char c2 :: nat)" "(of_char c2 :: nat) \<le> 191"
    "128 \<le> (of_char c3 :: nat)" "(of_char c3 :: nat) \<le> 191"
    using assms by (auto simp: seq4_def accept_lo_def accept_hi_def split: if_splits)
  note A = enc4_arith [OF h, folded r_def]
  have "EncodeRune r = [char_of (0xF0 + r div 262144), char_of (0x80 + r div 4096 mod 64),
      char_of (0x80 + r div 64 mod 64), char_of (0x80 + r mod 64)]"
    using A(1,2) by (simp add: EncodeRune_def MaxRune_def)
  also have "\<dots> = [c, c1, c2, c3]" unfolding A(3,4,5,6) by simp
  finally show ?thesis unfolding r_def .
qed


lemma DecodeRune_take4: "DecodeRune (take 4 s) = DecodeRune s"
proof (cases s)
  case Nil
  then show ?thesis by simp
next
  case (Cons c cs)
  show ?thesis
  proof (cases cs rule: list_shape4)
    case (4 c1 c2 c3 t)
    then show ?thesis using Cons
      by (simp add: DecodeRune.simps(2) Let_def first_size_def)
  qed (use Cons in simp_all)
qed

lemma DecodeRune_ascii: "(of_char c :: nat) < 0x80 \<Longrightarrow> DecodeRune (c # cs) = (of_char c, 1)"
  by (simp add: DecodeRune.simps(2))

text \<open>A valid multi-byte sequence at the head of a string: what it decodes to, and that
  encoding gives the sequence back.\<close>

lemma DecodeRune_valid:
  assumes "DecodeRune (c # cs) = (r, n)" "\<not> (r = RuneError \<and> n = 1)"
    "0x80 \<le> (of_char c :: nat)"
  obtains pre t where "cs = pre @ t" "Suc (length pre) = n" "EncodeRune r = c # pre"
    "\<And>u. DecodeRune (c # pre @ u) = (r, n)"
proof -
  consider c1 t where "cs = c1 # t" "seq2 c c1"
    | c1 c2 t where "cs = c1 # c2 # t" "seq3 c c1 c2"
    | c1 c2 c3 t where "cs = c1 # c2 # c3 # t" "seq4 c c1 c2 c3"
    using DecodeRune_cases [OF assms] by blast
  then show ?thesis
  proof cases
    case 1
    have "cs = [c1] @ t" "Suc (length [c1]) = n" "EncodeRune r = c # [c1]"
      "\<And>u. DecodeRune (c # [c1] @ u) = (r, n)"
      using 1 assms(1) DecodeRune_seq2 [OF 1(2)] EncodeRune_seq2 [OF 1(2)] by auto
    then show ?thesis using that by blast
  next
    case 2
    have "cs = [c1, c2] @ t" "Suc (length [c1, c2]) = n" "EncodeRune r = c # [c1, c2]"
      "\<And>u. DecodeRune (c # [c1, c2] @ u) = (r, n)"
      using 2 assms(1) DecodeRune_seq3 [OF 2(2)] EncodeRune_seq3 [OF 2(2)] by auto
    then show ?thesis using that by blast
  next
    case 3
    have "cs = [c1, c2, c3] @ t" "Suc (length [c1, c2, c3]) = n" "EncodeRune r = c # [c1, c2, c3]"
      "\<And>u. DecodeRune (c # [c1, c2, c3] @ u) = (r, n)"
      using 3 assms(1) DecodeRune_seq4 [OF 3(2)] EncodeRune_seq4 [OF 3(2)] by auto
    then show ?thesis using that by blast
  qed
qed

section \<open>The JSON codec reads back what it wrote\<close>

lemma emit_Some [simp]: "emit out (Some (t, rest)) = Some (out @ t, rest)"
  by (simp add: emit_def)

lemma unquote_DQ: "unquote (DQ # cs) = Some ([], cs)"
  by simp

lemma unquote_plain:
  "c \<noteq> DQ \<Longrightarrow> c \<noteq> BSL \<Longrightarrow> 0x20 \<le> (of_char c :: nat) \<Longrightarrow> (of_char c :: nat) < 0x80
    \<Longrightarrow> unquote (c # cs) = emit [c] (unquote cs)"
  by simp

lemma unquote_escaped:
  "unquote (BSL # DQ # es) = emit [DQ] (unquote es)"
  "unquote (BSL # BSL # es) = emit [BSL] (unquote es)"
  "unquote (BSL # CHR ''b'' # es) = emit [CHR 0x08] (unquote es)"
  "unquote (BSL # CHR ''f'' # es) = emit [CHR 0x0C] (unquote es)"
  "unquote (BSL # CHR ''n'' # es) = emit [CHR 0x0A] (unquote es)"
  "unquote (BSL # CHR ''r'' # es) = emit [CHR 0x0D] (unquote es)"
  "unquote (BSL # CHR ''t'' # es) = emit [CHR 0x09] (unquote es)"
  by simp_all

lemma unquote_u:
  "getu4 (BSL # CHR ''u'' # es) = Some rr \<Longrightarrow> \<not> IsSurrogate rr
    \<Longrightarrow> unquote (BSL # CHR ''u'' # es) = emit (EncodeRune rr) (unquote (drop 4 es))"
  by simp

lemma unquote_multi:
  "0x80 \<le> (of_char c :: nat) \<Longrightarrow> DecodeRune (c # cs) = (rr, n)
    \<Longrightarrow> unquote (c # cs) = emit (EncodeRune rr) (unquote (drop n (c # cs)))"
  by auto

lemma upt_16: "[0..<16] = [0, 1, 2, 3, 4, 5, 6, 7, 8, 9, 10, 11, 12, 13, 14, 15 :: nat]"
  by code_simp

lemma hexval_hex: "n < 16 \<Longrightarrow> hexval (hex n) = Some n"
proof -
  assume "n < 16"
  then have "n \<in> set [0..<16]" by simp
  then have "n \<in> set [0, 1, 2, 3, 4, 5, 6, 7, 8, 9, 10, 11, 12, 13, 14, 15 :: nat]"
    unfolding upt_16 .
  then show ?thesis by (auto simp: hex_def hexval_def)
qed

lemma getu4_u00: "b < 256 \<Longrightarrow>
  getu4 (BSL # CHR ''u'' # CHR ''0'' # CHR ''0'' # hex (b div 16) # hex (b mod 16) # es) = Some b"
  using hexval_hex [of "b div 16"] hexval_hex [of "b mod 16"]
  by (simp add: getu4_def hexval_def)


declare unquote.simps(2) [simp del]
declare appendString_loop.simps(2) [simp del]
declare ValidString.simps(2) [simp del]
declare coerced.simps(2) [simp del]

lemma char_code_eq: "(of_char c :: nat) = of_char d \<Longrightarrow> c = d"
  by (metis char_of_char)

lemma ValidString_ascii:
  "(of_char c :: nat) < 0x80 \<Longrightarrow> ValidString (c # cs) = ValidString cs"
  by (simp add: ValidString.simps(2) DecodeRune_ascii RuneError_def)

lemma appendString_loop_ascii:
  assumes "(of_char c :: nat) < 0x80" "unquote (appendString_loop cs @ DQ # rest) = Some (t, rest)"
  shows "unquote (appendString_loop (c # cs) @ DQ # rest) = Some (c # t, rest)"
proof -
  let ?b = "of_char c :: nat"
  consider (safe) "htmlSafeSet ?b"
    | (quote) "c = BSL \<or> c = DQ"
    | (short) "?b = 0x08 \<or> ?b = 0x0C \<or> ?b = 0x0A \<or> ?b = 0x0D \<or> ?b = 0x09"
    | (other) "\<not> htmlSafeSet ?b" "c \<noteq> BSL" "c \<noteq> DQ"
        "?b \<noteq> 0x08" "?b \<noteq> 0x0C" "?b \<noteq> 0x0A" "?b \<noteq> 0x0D" "?b \<noteq> 0x09"
    by blast
  then show ?thesis
  proof cases
    case safe
    then have "c \<noteq> DQ" "c \<noteq> BSL" "0x20 \<le> ?b" by (auto simp: htmlSafeSet_def)
    then show ?thesis using assms safe
      by (simp add: appendString_loop.simps(2) unquote_plain)
  next
    case quote
    then show ?thesis using assms
      by (auto simp: appendString_loop.simps(2) htmlSafeSet_def unquote_escaped)
  next
    case short
    then have "c = CHR 0x08 \<or> c = CHR 0x0C \<or> c = CHR 0x0A \<or> c = CHR 0x0D \<or> c = CHR 0x09"
      using char_code_eq [of c "CHR 0x08"] char_code_eq [of c "CHR 0x0C"]
        char_code_eq [of c "CHR 0x0A"] char_code_eq [of c "CHR 0x0D"]
        char_code_eq [of c "CHR 0x09"] by auto
    then show ?thesis using assms(2)
      by (auto simp: appendString_loop.simps(2) htmlSafeSet_def unquote_escaped)
  next
    case other
    have loop: "appendString_loop (c # cs) =
        BSL # CHR ''u'' # CHR ''0'' # CHR ''0'' # hex (?b div 16) # hex (?b mod 16)
          # appendString_loop cs"
      using other assms(1) by (simp add: appendString_loop.simps(2) Let_def)
    have g: "getu4 (BSL # CHR ''u'' # CHR ''0'' # CHR ''0'' # hex (?b div 16) # hex (?b mod 16)
          # appendString_loop cs @ DQ # rest) = Some ?b"
      using assms(1) by (intro getu4_u00) simp
    have s: "\<not> IsSurrogate ?b" using assms(1) by (simp add: IsSurrogate_def)
    have e: "EncodeRune ?b = [c]" using assms(1) by (simp add: EncodeRune_def)
    show ?thesis unfolding loop using unquote_u [OF g s] assms(2) e by simp
  qed
qed


lemma ge128_not_special:
  assumes "0x80 \<le> (of_char c :: nat)"
  shows "c \<noteq> DQ" "c \<noteq> BSL" "\<not> (of_char c :: nat) < 0x20" "\<not> (of_char c :: nat) < 0x80"
  using assms by auto

lemma appendString_loop_multi:
  assumes hi: "0x80 \<le> (of_char c :: nat)"
    and dec: "DecodeRune (c # cs) = (r, n)" and ok: "\<not> (r = RuneError \<and> n = 1)"
    and split: "cs = pre @ t" "Suc (length pre) = n" "EncodeRune r = c # pre"
      "\<And>u. DecodeRune (c # pre @ u) = (r, n)"
    and IH: "unquote (appendString_loop t @ DQ # rest) = Some (t', rest)"
  shows "unquote (appendString_loop (c # cs) @ DQ # rest) = Some (c # pre @ t', rest)"
proof -
  have d4: "DecodeRune (take 4 (c # cs)) = (r, n)" using dec DecodeRune_take4 [of "c # cs"] by simp
  have dr: "drop n (c # cs) = t" "take n (c # cs) = c # pre" using split(1,2) by auto
  show ?thesis
  proof (cases "r = 0x2028 \<or> r = 0x2029")
    case True
    then have loop: "appendString_loop (c # cs) = BSL # ''u202'' @ hex (r mod 16) # appendString_loop t"
      using hi d4 ok dr by (auto simp: appendString_loop.simps(2) Let_def RuneError_def)
    have g: "getu4 (BSL # CHR ''u'' # ''202'' @ hex (r mod 16) # appendString_loop t @ DQ # rest) = Some r"
      using True by (auto simp: getu4_def hexval_def hex_def)
    have s: "\<not> IsSurrogate r" using True by (auto simp: IsSurrogate_def)
    show ?thesis unfolding loop using unquote_u [OF g s] IH split(1,3) by simp
  next
    case False
    then have loop: "appendString_loop (c # cs) = (c # pre) @ appendString_loop t"
      using hi d4 ok dr by (auto simp: appendString_loop.simps(2) Let_def)
    have "unquote (c # pre @ appendString_loop t @ DQ # rest)
        = emit (EncodeRune r) (unquote (drop n (c # pre @ appendString_loop t @ DQ # rest)))"
      using unquote_multi [OF hi split(4)] .
    also have "drop n (c # pre @ appendString_loop t @ DQ # rest) = appendString_loop t @ DQ # rest"
      using split(2) by auto
    finally show ?thesis unfolding loop using IH split(1,3) by simp
  qed
qed

lemma EncodeRune_RuneError: "EncodeRune 0xFFFD = [CHR 0xEF, CHR 0xBF, CHR 0xBD]"
  by (simp add: EncodeRune_def MaxRune_def char_of_def bit_Suc_0_iff)

lemma appendString_loop_invalid:
  assumes hi: "0x80 \<le> (of_char c :: nat)" and dec: "DecodeRune (c # cs) = (RuneError, 1)"
    and IH: "unquote (appendString_loop cs @ DQ # rest) = Some (t', rest)"
  shows "unquote (appendString_loop (c # cs) @ DQ # rest)
    = Some ([CHR 0xEF, CHR 0xBF, CHR 0xBD] @ t', rest)"
proof -
  have d4: "DecodeRune (take 4 (c # cs)) = (RuneError, 1)"
    using dec DecodeRune_take4 [of "c # cs"] by simp
  have loop: "appendString_loop (c # cs) = BSL # ''ufffd'' @ appendString_loop cs"
    using hi d4 by (simp add: appendString_loop.simps(2) Let_def)
  have g: "getu4 (BSL # CHR ''u'' # ''fffd'' @ appendString_loop cs @ DQ # rest) = Some 0xFFFD"
    by (simp add: getu4_def hexval_def)
  have s: "\<not> IsSurrogate 0xFFFD" by (simp add: IsSurrogate_def)
  show ?thesis unfolding loop using unquote_u [OF g s] IH by (simp add: EncodeRune_RuneError)
qed

lemma coerced_ascii: "(of_char c :: nat) < 0x80 \<Longrightarrow> coerced (c # cs) = c # coerced cs"
  by (simp add: coerced.simps(2) DecodeRune_ascii RuneError_def)

text \<open>The coder implements the coercion: a string written by \<open>appendString\<close> is read back
  by \<open>unquote\<close> as the coerced string.\<close>

lemma unquote_appendString_loop:
  "unquote (appendString_loop s @ DQ # rest) = Some (coerced s, rest)"
proof (induction s rule: length_induct)
  case (1 s)
  show ?case
  proof (cases s)
    case Nil
    then show ?thesis by (simp add: unquote_DQ)
  next
    case (Cons c cs)
    show ?thesis
    proof (cases "(of_char c :: nat) < 0x80")
      case True
      have "unquote (appendString_loop cs @ DQ # rest) = Some (coerced cs, rest)"
        using "1.IH" Cons by simp
      then show ?thesis unfolding Cons coerced_ascii [OF True]
        by (rule appendString_loop_ascii [OF True])
    next
      case False
      then have hi: "0x80 \<le> (of_char c :: nat)" by simp
      obtain r n where dec: "DecodeRune (c # cs) = (r, n)" by (cases "DecodeRune (c # cs)")
      show ?thesis
      proof (cases "r = RuneError \<and> n = 1")
        case True
        have c: "coerced (c # cs) = [CHR 0xEF, CHR 0xBF, CHR 0xBD] @ coerced cs"
          using dec True by (simp add: coerced.simps(2))
        have "unquote (appendString_loop cs @ DQ # rest) = Some (coerced cs, rest)"
          using "1.IH" Cons by simp
        then show ?thesis unfolding Cons c
          using appendString_loop_invalid [OF hi, where cs = cs and t' = "coerced cs" and rest = rest]
            dec True by simp
      next
        case ok: False
        from DecodeRune_valid [OF dec ok hi] obtain pre t where
          split: "cs = pre @ t" "Suc (length pre) = n" "EncodeRune r = c # pre"
            "\<And>u. DecodeRune (c # pre @ u) = (r, n)" by metis
        have dr: "drop n (c # cs) = t" "take n (c # cs) = c # pre" using split(1,2) by auto
        have c: "coerced (c # cs) = c # pre @ coerced t"
          using dec ok dr by (auto simp: coerced.simps(2))
        have "length t < length s" using Cons split(1) by simp
        then have "unquote (appendString_loop t @ DQ # rest) = Some (coerced t, rest)"
          using "1.IH" by blast
        then show ?thesis unfolding Cons c
          by (rule appendString_loop_multi [OF hi dec ok split])
      qed
    qed
  qed
qed

lemma coerced_valid: "ValidString s \<Longrightarrow> coerced s = s"
proof (induction s rule: length_induct)
  case (1 s)
  show ?case
  proof (cases s)
    case Nil
    then show ?thesis by simp
  next
    case (Cons c cs)
    obtain r n where dec: "DecodeRune (c # cs) = (r, n)" by (cases "DecodeRune (c # cs)")
    have ok: "\<not> (r = RuneError \<and> n = 1)" and v: "ValidString (drop n (c # cs))"
      using "1.prems" Cons dec by (auto simp: ValidString.simps(2) split: if_splits)
    have "1 \<le> n" using DecodeRune_width [OF dec] by simp
    then have "length (drop n (c # cs)) < length s" using Cons by simp
    then have "coerced (drop n (c # cs)) = drop n (c # cs)" using "1.IH" v by blast
    then show ?thesis unfolding Cons using dec ok by (auto simp: coerced.simps(2))
  qed
qed

lemma skip_space_nonspace: "\<not> is_space c \<Longrightarrow> skip_space (c # s) = c # s"
  by (simp add: skip_space_def)

lemma unquote_appendString:
  "unquote (tl (appendString v @ rest)) = Some (coerced v, rest)"
  using unquote_appendString_loop [of v rest] by (simp add: appendString_def)

lemma starts_appendString: "starts DQ (appendString v @ rest)"
  by (simp add: appendString_def starts_def)

lemma object_members_field:
  assumes nm: "unquote nmtext = Some (name, CHR '':'' # appendString v @ rest)"
    and f: "field_of name = Some f"
    and rest: "skip_space rest = rest"
  shows "object_members (Suc k) cmd (DQ # nmtext) =
    (if starts (CHR '','') rest
     then object_members k (set_field f (coerced v) cmd) (skip_space (tl rest))
     else if starts (CHR ''}'') rest then Some (set_field f (coerced v) cmd, tl rest)
     else None)"
  using nm f rest unquote_appendString [of v rest] starts_appendString [of v rest]
  by (simp add: starts_def skip_space_nonspace is_space_def Let_def appendString_def)


lemma unquote_names:
  "unquote (''op'' @ DQ # X) = Some (''op'', X)"
  "unquote (''key'' @ DQ # X) = Some (''key'', X)"
  "unquote (''value'' @ DQ # X) = Some (''value'', X)"
  by (simp_all add: unquote.simps(2))

lemma field_of_names:
  "field_of ''op'' = Some Field_op" "field_of ''key'' = Some Field_key"
  "field_of ''value'' = Some Field_value"
  by (simp_all add: field_of_def)

lemma skip_space_Nil: "skip_space [] = []"
  by (simp add: skip_space_def)

lemma object_members_Marshal:
  "object_members (Suc (Suc (Suc k))) zero_walCommand (tl (json_Marshal cmd))
     = Some (\<lparr>Op = coerced (Op cmd), Key = coerced (Key cmd), Value = coerced (Value cmd)\<rparr>, [])"
proof -
  let ?close = "[CHR ''}'']"
  let ?val = "CHR '','' # DQ # ''value'' @ DQ # CHR '':'' # appendString (Value cmd) @ ?close"
  let ?R2 = "if Value cmd = [] then ?close else ?val"
  let ?R1 = "CHR '','' # DQ # ''key'' @ DQ # CHR '':'' # appendString (Key cmd) @ ?R2"
  let ?c1 = "set_field Field_op (coerced (Op cmd)) zero_walCommand"
  let ?c2 = "set_field Field_key (coerced (Key cmd)) ?c1"
  let ?c3 = "set_field Field_value (coerced (Value cmd)) ?c2"
  have sp: "skip_space ?R2 = ?R2" "skip_space ?R1 = ?R1" "skip_space ?close = ?close"
    by (simp_all add: skip_space_nonspace is_space_def)
  have m: "tl (json_Marshal cmd) = DQ # ''op'' @ DQ # CHR '':'' # appendString (Op cmd) @ ?R1"
    by (simp add: json_Marshal_def)
  have e3: "object_members (Suc k) ?c2 (DQ # ''value'' @ DQ # CHR '':'' # appendString (Value cmd) @ ?close)
      = Some (?c3, [])"
    using object_members_field [OF unquote_names(3) field_of_names(3) sp(3),
        where v = "Value cmd" and k = k and cmd = ?c2]
    by (simp add: starts_def)
  have e2: "object_members (Suc (Suc k)) ?c1 (DQ # ''key'' @ DQ # CHR '':'' # appendString (Key cmd) @ ?R2)
      = Some (if Value cmd = [] then ?c2 else ?c3, [])"
    using object_members_field [OF unquote_names(2) field_of_names(2) sp(1),
        where v = "Key cmd" and k = "Suc k" and cmd = ?c1] e3
    by (simp add: starts_def skip_space_nonspace is_space_def)
  have e1: "object_members (Suc (Suc (Suc k))) zero_walCommand (tl (json_Marshal cmd))
      = Some (if Value cmd = [] then ?c2 else ?c3, [])"
    unfolding m
    using object_members_field [OF unquote_names(1) field_of_names(1) sp(2),
        where v = "Op cmd" and k = "Suc (Suc k)" and cmd = zero_walCommand] e2
    by (simp add: starts_def skip_space_nonspace is_space_def)
  have "(if Value cmd = [] then ?c2 else ?c3)
      = \<lparr>Op = coerced (Op cmd), Key = coerced (Key cmd), Value = coerced (Value cmd)\<rparr>"
    by (simp add: set_field_def zero_walCommand_def)
  then show ?thesis using e1 by simp
qed

lemma json_roundtrip_coerced:
  "json_Unmarshal (json_Marshal cmd)
     = Inr \<lparr>Op = coerced (Op cmd), Key = coerced (Key cmd), Value = coerced (Value cmd)\<rparr>"
proof -
  obtain t where m: "json_Marshal cmd = CHR ''{'' # DQ # t" "3 \<le> length t"
    by (simp add: json_Marshal_def)
  then obtain k where k: "length (DQ # t) = Suc (Suc (Suc k))"
    by (metis One_nat_def Suc_le_D Suc_le_mono length_Cons numeral_3_eq_3 le_SucI)
  have "object_members (length (DQ # t)) zero_walCommand (DQ # t)
      = Some (\<lparr>Op = coerced (Op cmd), Key = coerced (Key cmd), Value = coerced (Value cmd)\<rparr>, [])"
    unfolding k using object_members_Marshal [of k cmd] m(1) by simp
  then show ?thesis unfolding json_Unmarshal_def m(1)
    by (simp add: skip_space_nonspace is_space_def starts_def skip_space_Nil Let_def del: object_members.simps)
qed

lemma json_roundtrip:
  assumes "ValidString (Op cmd)" "ValidString (Key cmd)" "ValidString (Value cmd)"
  shows "json_Unmarshal (json_Marshal cmd) = Inr cmd"
  using assms by (simp add: json_roundtrip_coerced coerced_valid)

section \<open>The log file and the operating system\<close>

text \<open>
  The log is a regular file read and written through one handle. A system call can fail:
  \<open>script\<close> lists what the device does at the coming calls, one entry for each call in
  the order the program makes them, and every call succeeds once the list is used up. A
  failing read or write still transfers the given number of bytes.
\<close>

datatype io_outcome = Succeeds | Fails nat

record File =
  data :: string
  offset :: nat
  script :: "io_outcome list"

definition next_outcome :: "File \<Rightarrow> io_outcome \<times> File" where
  "next_outcome f = (case script f of [] \<Rightarrow> (Succeeds, f) | x # xs \<Rightarrow> (x, f\<lparr>script := xs\<rparr>))"

datatype whence = SeekStart | SeekEnd

definition Seek :: "File \<Rightarrow> nat \<Rightarrow> whence \<Rightarrow> File \<times> error option" where
  "Seek f off w =
     (case next_outcome f of
        (Fails n, f') \<Rightarrow> (f', Some DeviceError)
      | (Succeeds, f') \<Rightarrow>
          (f'\<lparr>offset := (case w of SeekStart \<Rightarrow> off | SeekEnd \<Rightarrow> length (data f') + off)\<rparr>, None))"

text \<open>Bytes stored at the position of the handle; a gap past the end reads as zeros.\<close>

definition store :: "File \<Rightarrow> string \<Rightarrow> File" where
  "store f b =
     f\<lparr>data := take (offset f) (data f) @ replicate (offset f - length (data f)) (CHR 0x00)
               @ b @ drop (offset f + length b) (data f),
       offset := offset f + length b\<rparr>"

text \<open>\<open>(*os.File).Write\<close>: the number of bytes written and an error; the error is non-nil
  whenever fewer bytes were written than asked.\<close>

definition Write :: "File \<Rightarrow> string \<Rightarrow> File \<times> nat \<times> error option" where
  "Write f b =
     (case next_outcome f of
        (Succeeds, f') \<Rightarrow> (store f' b, length b, None)
      | (Fails n, f') \<Rightarrow> (store f' (take n b), min n (length b), Some DeviceError))"

definition Sync :: "File \<Rightarrow> File \<times> error option" where
  "Sync f =
     (case next_outcome f of
        (Succeeds, f') \<Rightarrow> (f', None)
      | (Fails n, f') \<Rightarrow> (f', Some DeviceError))"

text \<open>
  \<open>io.ReadFull\<close> on the file, for a buffer of \<open>n\<close> bytes: the bytes read and the error.
  An empty buffer is filled without a read. Otherwise the bytes up to the end of the file
  are read; the error is \<open>EOF\<close> when none was read and \<open>ErrUnexpectedEOF\<close> when some
  but not all were. One entry of the script stands for the reads of one call.
\<close>

definition ReadFull :: "File \<Rightarrow> nat \<Rightarrow> File \<times> string \<times> error option" where
  "ReadFull f n =
     (if n = 0 then (f, [], None)
      else
        (case next_outcome f of
           (Succeeds, f') \<Rightarrow>
             (let got = take n (drop (offset f') (data f')) in
              (f'\<lparr>offset := offset f' + length got\<rparr>, got,
               if length got = n then None
               else if got = [] then Some EOF else Some ErrUnexpectedEOF))
         | (Fails k, f') \<Rightarrow>
             (let got = take (min k n) (drop (offset f') (data f')) in
              (f'\<lparr>offset := offset f' + length got\<rparr>, got,
               if length got = n then None else Some DeviceError))))"

subsection \<open>\<open>writeFull\<close> and \<open>readFullWithEOFAsBoundary\<close>\<close>

function writeFull :: "File \<Rightarrow> string \<Rightarrow> File \<times> error option" where
  "writeFull w dat =
     (if dat = [] then (w, None)
      else
        (case Write w dat of
           (w', n, Some err) \<Rightarrow> (w', Some err)
         | (w', n, None) \<Rightarrow>
             if n = 0 then (w', Some ErrShortWrite)
             else writeFull w' (drop n dat)))"
  by pat_completeness auto

termination writeFull
  by (relation "measure (\<lambda>(w, dat). length dat)") auto

declare writeFull.simps [simp del]

definition readFullWithEOFAsBoundary :: "File \<Rightarrow> nat \<Rightarrow> File \<times> string \<times> error option" where
  "readFullWithEOFAsBoundary r n =
     (case ReadFull r n of
        (r', got, None) \<Rightarrow> (r', got, None)
      | (r', got, Some err) \<Rightarrow>
          if err = EOF \<or> err = ErrUnexpectedEOF then
            (if length got = 0 then (r', got, Some EOF) else (r', got, Some ErrUnexpectedEOF))
          else (r', got, Some err))"

definition isValidOp :: "string \<Rightarrow> bool" where
  "isValidOp op = (op = ''put'' \<or> op = ''swap'' \<or> op = ''delete'')"

subsection \<open>\<open>encoding/binary\<close>, big endian\<close>

definition uint32 :: "nat \<Rightarrow> nat" where
  "uint32 n = n mod 2 ^ 32"

definition PutUint32 :: "nat \<Rightarrow> string" where
  "PutUint32 v = [char_of (v div 2 ^ 24), char_of (v div 2 ^ 16), char_of (v div 2 ^ 8), char_of v]"

definition Uint32 :: "string \<Rightarrow> nat" where
  "Uint32 b = of_char (b ! 0) * 2 ^ 24 + of_char (b ! 1) * 2 ^ 16 + of_char (b ! 2) * 2 ^ 8
     + of_char (b ! 3)"

section \<open>The ordered index\<close>

text \<open>
  \<open>btree.BTree\<close> of \<open>github.com/google/btree\<close> holds items ordered by \<open>Less\<close>; two items
  neither of which is less than the other are the same entry. The tree is modelled by the
  list of its items in ascending order, which is what its iterators visit.
\<close>

record item =
  key :: string
  val :: string

definition Less :: "item \<Rightarrow> item \<Rightarrow> bool" where
  "Less a b = (key a < key b)"

definition btree_New :: "item list" where
  "btree_New = []"

fun btree_Get :: "item list \<Rightarrow> item \<Rightarrow> item option" where
  "btree_Get [] x = None"
| "btree_Get (y # ys) x =
     (if Less y x then btree_Get ys x else if Less x y then None else Some y)"

fun btree_ReplaceOrInsert :: "item list \<Rightarrow> item \<Rightarrow> item list \<times> item option" where
  "btree_ReplaceOrInsert [] x = ([x], None)"
| "btree_ReplaceOrInsert (y # ys) x =
     (if Less y x then (case btree_ReplaceOrInsert ys x of (ys', old) \<Rightarrow> (y # ys', old))
      else if Less x y then (x # y # ys, None)
      else (x # ys, Some y))"

fun btree_Delete :: "item list \<Rightarrow> item \<Rightarrow> item list \<times> item option" where
  "btree_Delete [] x = ([], None)"
| "btree_Delete (y # ys) x =
     (if Less y x then (case btree_Delete ys x of (ys', old) \<Rightarrow> (y # ys', old))
      else if Less x y then (y # ys, None)
      else (ys, Some y))"

text \<open>\<open>AscendGreaterOrEqual\<close> calls the iterator on every item not less than the pivot, in
  ascending order, until the iterator returns false. The iterator is a closure over the
  caller's variables, here the accumulator it returns with its verdict.\<close>

fun btree_AscendGreaterOrEqual ::
  "item list \<Rightarrow> item \<Rightarrow> (item \<Rightarrow> 'a \<Rightarrow> bool \<times> 'a) \<Rightarrow> 'a \<Rightarrow> 'a" where
  "btree_AscendGreaterOrEqual [] pivot iterator acc = acc"
| "btree_AscendGreaterOrEqual (y # ys) pivot iterator acc =
     (if Less y pivot then btree_AscendGreaterOrEqual ys pivot iterator acc
      else
        (case iterator y acc of
           (True, acc') \<Rightarrow> btree_AscendGreaterOrEqual ys pivot iterator acc'
         | (False, acc') \<Rightarrow> acc'))"

section \<open>The file-backed server\<close>

text \<open>The mutex is not modelled: every handler holds it from entry to return, so the
  handlers run one after the other, each on the state the previous one left.\<close>

record kvServer =
  tree :: "item list"
  logFile :: File

definition maxWALFrameSize :: nat where
  "maxWALFrameSize = 2 ^ 10"

definition applyCommand :: "kvServer \<Rightarrow> walCommand \<Rightarrow> kvServer" where
  "applyCommand s cmd =
     (if Op cmd = ''put'' \<or> Op cmd = ''swap''
      then s\<lparr>tree := fst (btree_ReplaceOrInsert (tree s) \<lparr>key = Key cmd, val = Value cmd\<rparr>)\<rparr>
      else if Op cmd = ''delete''
      then s\<lparr>tree := fst (btree_Delete (tree s) \<lparr>key = Key cmd, val = []\<rparr>)\<rparr>
      else s)"

text \<open>One frame of the log, decoded: lines 134 to 140 of \<open>replayWAL\<close>.\<close>

definition decodeCommand :: "string \<Rightarrow> error + walCommand" where
  "decodeCommand payload =
     (case json_Unmarshal payload of
        Inl err \<Rightarrow> Inl (DecodeWalCommand err)
      | Inr cmd \<Rightarrow> if \<not> isValidOp (Op cmd) then Inl (UnknownWalOp (Op cmd)) else Inr cmd)"

function replayWAL_loop :: "kvServer \<Rightarrow> kvServer \<times> error option" where
  "replayWAL_loop s =
     (case readFullWithEOFAsBoundary (logFile s) 4 of
        (f1, lenBuf, err) \<Rightarrow>
          if err = Some EOF then (s\<lparr>logFile := f1\<rparr>, None)
          else if err = Some ErrUnexpectedEOF then (s\<lparr>logFile := f1\<rparr>, None)
          else
            (case err of
               Some e \<Rightarrow> (s\<lparr>logFile := f1\<rparr>, Some (ReadWalFrameLength e))
             | None \<Rightarrow>
                 (let sz = Uint32 lenBuf in
                  if sz > maxWALFrameSize
                  then (s\<lparr>logFile := f1\<rparr>, Some (WalFrameTooLarge sz))
                  else
                    (case readFullWithEOFAsBoundary f1 sz of
                       (f2, payload, err2) \<Rightarrow>
                         if err2 = Some ErrUnexpectedEOF then (s\<lparr>logFile := f2\<rparr>, None)
                         else
                           (case err2 of
                              Some e \<Rightarrow> (s\<lparr>logFile := f2\<rparr>, Some (ReadWalFramePayload e))
                            | None \<Rightarrow>
                                (case decodeCommand payload of
                                   Inl e \<Rightarrow> (s\<lparr>logFile := f2\<rparr>, Some e)
                                 | Inr cmd \<Rightarrow>
                                     replayWAL_loop (applyCommand (s\<lparr>logFile := f2\<rparr>) cmd)))))))"
  by pat_completeness auto


lemma ReadFull_ok:
  assumes "ReadFull f n = (f', got, None)"
  shows "data f' = data f" "length got = n" "offset f' = offset f + n"
    "offset f + n \<le> length (data f) \<or> n = 0"
    "got = take n (drop (offset f) (data f))"
  using assms
  by (auto simp: ReadFull_def next_outcome_def Let_def min_def
      split: if_splits list.splits io_outcome.splits)

lemma readFullWithEOFAsBoundary_ok:
  assumes "readFullWithEOFAsBoundary f n = (f', got, None)"
  shows "data f' = data f" "length got = n" "offset f' = offset f + n"
    "offset f + n \<le> length (data f) \<or> n = 0"
    "got = take n (drop (offset f) (data f))"
  using assms ReadFull_ok [of f n f' got]
  by (auto simp: readFullWithEOFAsBoundary_def split: prod.splits option.splits if_splits)

lemma logFile_applyCommand: "logFile (applyCommand s cmd) = logFile s"
  by (simp add: applyCommand_def)

lemma replayWAL_loop_decreases:
  assumes "readFullWithEOFAsBoundary f 4 = (f1, lenBuf, None)"
    and "readFullWithEOFAsBoundary f1 sz = (f2, payload, None)"
  shows "length (data f2) - offset f2 < length (data f) - offset f"
  using readFullWithEOFAsBoundary_ok(1,3,4) [OF assms(1)]
    readFullWithEOFAsBoundary_ok(1,3,4) [OF assms(2)]
  by auto

termination replayWAL_loop
proof (relation "measure (\<lambda>s. length (data (logFile s)) - offset (logFile s))")
  show "wf (measure (\<lambda>s. length (data (logFile s)) - offset (logFile s)))" by simp
next
  fix s :: kvServer and f1 y lenBuf and err :: "error option" and sz f2 y2 payload
    and err2 :: "error option" and cmd
  assume "(f1, y) = readFullWithEOFAsBoundary (logFile s) 4" "(lenBuf, err) = y" "err = None"
    "sz = Uint32 lenBuf" "(f2, y2) = readFullWithEOFAsBoundary f1 sz"
    "(payload, err2) = y2" "err2 = None"
  then have "readFullWithEOFAsBoundary (logFile s) 4 = (f1, lenBuf, None)"
    "readFullWithEOFAsBoundary f1 sz = (f2, payload, None)"
    by auto
  from replayWAL_loop_decreases [OF this]
  show "(applyCommand (s\<lparr>logFile := f2\<rparr>) cmd, s)
      \<in> measure (\<lambda>s. length (data (logFile s)) - offset (logFile s))"
    by (simp add: logFile_applyCommand)
qed

declare replayWAL_loop.simps [simp del]

definition replayWAL :: "kvServer \<Rightarrow> kvServer \<times> error option" where
  "replayWAL s =
     (case Seek (logFile s) 0 SeekStart of
        (f, Some err) \<Rightarrow> (s\<lparr>logFile := f\<rparr>, Some (SeekWalStart err))
      | (f, None) \<Rightarrow> replayWAL_loop (s\<lparr>logFile := f\<rparr>))"

definition appendWAL :: "kvServer \<Rightarrow> walCommand \<Rightarrow> kvServer \<times> error option" where
  "appendWAL s cmd =
     (if \<not> isValidOp (Op cmd) then (s, Some (UnknownWalOp (Op cmd)))
      else
        (let payload = json_Marshal cmd in
         if length payload > maxWALFrameSize
         then (s, Some (WalPayloadTooLarge (length payload)))
         else
           (let frame = PutUint32 (uint32 (length payload)) in
            (case writeFull (logFile s) frame of
               (f1, Some err) \<Rightarrow> (s\<lparr>logFile := f1\<rparr>, Some (WriteWalFrameLength err))
             | (f1, None) \<Rightarrow>
                 (case writeFull f1 payload of
                    (f2, Some err) \<Rightarrow> (s\<lparr>logFile := f2\<rparr>, Some (WriteWalFramePayload err))
                  | (f2, None) \<Rightarrow>
                      (case Sync f2 of
                         (f3, Some err) \<Rightarrow> (s\<lparr>logFile := f3\<rparr>, Some (SyncWal err))
                       | (f3, None) \<Rightarrow> (s\<lparr>logFile := f3\<rparr>, None)))))))"

text \<open>
  The handlers. A handler takes the server and the fields of its request and returns the
  server it leaves with what it returns to the caller: an error (\<open>Inl\<close>) or a reply.
\<close>

datatype reply =
    PutReply bool
  | GetReply bool string
  | SwapReply bool string
  | DeleteReply bool
  | ScanReply "(string \<times> string) list"

definition Put :: "kvServer \<Rightarrow> string \<Rightarrow> string \<Rightarrow> kvServer \<times> (error + reply)" where
  "Put s k v =
     (let prev = btree_Get (tree s) \<lparr>key = k, val = []\<rparr> in
      (case appendWAL s \<lparr>Op = ''put'', Key = k, Value = v\<rparr> of
         (s1, Some err) \<Rightarrow> (s1, Inl err)
       | (s1, None) \<Rightarrow>
           (applyCommand s1 \<lparr>Op = ''put'', Key = k, Value = v\<rparr>, Inr (PutReply (prev \<noteq> None)))))"

definition Get :: "kvServer \<Rightarrow> string \<Rightarrow> kvServer \<times> (error + reply)" where
  "Get s k =
     (case btree_Get (tree s) \<lparr>key = k, val = []\<rparr> of
        None \<Rightarrow> (s, Inr (GetReply False []))
      | Some it \<Rightarrow> (s, Inr (GetReply True (val it))))"

definition Swap :: "kvServer \<Rightarrow> string \<Rightarrow> string \<Rightarrow> kvServer \<times> (error + reply)" where
  "Swap s k v =
     (let got = btree_Get (tree s) \<lparr>key = k, val = []\<rparr> in
      (case appendWAL s \<lparr>Op = ''swap'', Key = k, Value = v\<rparr> of
         (s1, Some err) \<Rightarrow> (s1, Inl err)
       | (s1, None) \<Rightarrow>
           (let s2 = applyCommand s1 \<lparr>Op = ''swap'', Key = k, Value = v\<rparr> in
            (case got of
               None \<Rightarrow> (s2, Inr (SwapReply False []))
             | Some it \<Rightarrow> (s2, Inr (SwapReply True (val it)))))))"

definition Delete :: "kvServer \<Rightarrow> string \<Rightarrow> kvServer \<times> (error + reply)" where
  "Delete s k =
     (let del = btree_Get (tree s) \<lparr>key = k, val = []\<rparr> in
      (case appendWAL s \<lparr>Op = ''delete'', Key = k, Value = []\<rparr> of
         (s1, Some err) \<Rightarrow> (s1, Inl err)
       | (s1, None) \<Rightarrow>
           (applyCommand s1 \<lparr>Op = ''delete'', Key = k, Value = []\<rparr>,
            Inr (DeleteReply (del \<noteq> None)))))"

definition Scan :: "kvServer \<Rightarrow> string \<Rightarrow> string \<Rightarrow> kvServer \<times> (error + reply)" where
  "Scan s startKey endKey =
     (let pairs =
        btree_AscendGreaterOrEqual (tree s) \<lparr>key = startKey, val = []\<rparr>
          (\<lambda>it pairs.
             if key it > endKey then (False, pairs)
             else (True, pairs @ [(key it, val it)]))
          []
      in (s, Inr (ScanReply pairs)))"

text \<open>
  \<open>newKVServer\<close>. Its argument is the log file as \<open>os.OpenFile\<close> finds or creates it at
  the path: the bytes on disk (none for a new file), the handle at the start, and the
  script of the device, whose first two entries are for \<open>os.MkdirAll\<close> and \<open>os.OpenFile\<close>.
\<close>

definition newKVServer :: "File \<Rightarrow> error + kvServer" where
  "newKVServer disk =
     (case next_outcome disk of
        (Fails n, d1) \<Rightarrow> Inl (CreateWalDirectory DeviceError)
      | (Succeeds, d1) \<Rightarrow>
          (case next_outcome d1 of
             (Fails n, f) \<Rightarrow> Inl (OpenWal DeviceError)
           | (Succeeds, f) \<Rightarrow>
               (let s = \<lparr>tree = btree_New, logFile = f\<lparr>offset := 0\<rparr>\<rparr> in
                (case replayWAL s of
                   (s1, Some err) \<Rightarrow> Inl err
                 | (s1, None) \<Rightarrow>
                     (case Seek (logFile s1) 0 SeekEnd of
                        (f2, Some err) \<Rightarrow> Inl (SeekWalEnd err)
                      | (f2, None) \<Rightarrow> Inr (s1\<lparr>logFile := f2\<rparr>))))))"

section \<open>The database-backed server\<close>

text \<open>
  The second variant keeps the log in a table of an embedded database, one row for each
  record, read back in the order of insertion. Its names are those of the file-backed
  variant; they carry the prefix \<open>db\<close> here. The record type \<open>kvpb.WALCommand\<close> and its
  coder \<open>proto.Marshal\<close> and \<open>proto.Unmarshal\<close> are not among the sources: the coder is a
  parameter of every function that uses it.
\<close>

record pbCommand =
  pbOp :: WALCommand_Op
  pbKey :: string
  pbValue :: string

record sqlDB =
  rows :: "string list"
  db_script :: "io_outcome list"

record dbServer =
  db_tree :: "item list"
  db :: sqlDB

definition db_next_outcome :: "sqlDB \<Rightarrow> io_outcome \<times> sqlDB" where
  "db_next_outcome d =
     (case db_script d of [] \<Rightarrow> (Succeeds, d) | x # xs \<Rightarrow> (x, d\<lparr>db_script := xs\<rparr>))"

text \<open>\<open>INSERT INTO wal_log(payload) VALUES(?)\<close>: the row is the last of the table.\<close>

definition db_insert :: "sqlDB \<Rightarrow> string \<Rightarrow> sqlDB \<times> error option" where
  "db_insert d payload =
     (case db_next_outcome d of
        (Succeeds, d') \<Rightarrow> (d'\<lparr>rows := rows d' @ [payload]\<rparr>, None)
      | (Fails n, d') \<Rightarrow> (d', Some DeviceError))"

definition db_isValidOp :: "WALCommand_Op \<Rightarrow> bool" where
  "db_isValidOp op = (op = OP_PUT \<or> op = OP_SWAP \<or> op = OP_DELETE)"

definition db_applyCommand :: "dbServer \<Rightarrow> pbCommand \<Rightarrow> dbServer" where
  "db_applyCommand s cmd =
     (case pbOp cmd of
        OP_PUT \<Rightarrow>
          s\<lparr>db_tree := fst (btree_ReplaceOrInsert (db_tree s) \<lparr>key = pbKey cmd, val = pbValue cmd\<rparr>)\<rparr>
      | OP_SWAP \<Rightarrow>
          s\<lparr>db_tree := fst (btree_ReplaceOrInsert (db_tree s) \<lparr>key = pbKey cmd, val = pbValue cmd\<rparr>)\<rparr>
      | OP_DELETE \<Rightarrow>
          s\<lparr>db_tree := fst (btree_Delete (db_tree s) \<lparr>key = pbKey cmd, val = []\<rparr>)\<rparr>
      | OP_OTHER n \<Rightarrow> s)"

definition db_appendLog ::
  "(pbCommand \<Rightarrow> error + string) \<Rightarrow> dbServer \<Rightarrow> pbCommand \<Rightarrow> dbServer \<times> error option" where
  "db_appendLog marshal s cmd =
     (if \<not> db_isValidOp (pbOp cmd) then (s, Some (UnknownWalOpcode (pbOp cmd)))
      else
        (case marshal cmd of
           Inl err \<Rightarrow> (s, Some (EncodeWalPayload err))
         | Inr payload \<Rightarrow>
             (case db_insert (db s) payload of
                (d, Some err) \<Rightarrow> (s\<lparr>db := d\<rparr>, Some (AppendWalRow err))
              | (d, None) \<Rightarrow> (s\<lparr>db := d\<rparr>, None))))"

definition db_Put ::
  "(pbCommand \<Rightarrow> error + string) \<Rightarrow> dbServer \<Rightarrow> string \<Rightarrow> string \<Rightarrow> dbServer \<times> (error + reply)" where
  "db_Put marshal s k v =
     (let prev = btree_Get (db_tree s) \<lparr>key = k, val = []\<rparr>;
          cmd = \<lparr>pbOp = OP_PUT, pbKey = k, pbValue = v\<rparr> in
      (case db_appendLog marshal s cmd of
         (s1, Some err) \<Rightarrow> (s1, Inl err)
       | (s1, None) \<Rightarrow> (db_applyCommand s1 cmd, Inr (PutReply (prev \<noteq> None)))))"

definition db_Get :: "dbServer \<Rightarrow> string \<Rightarrow> dbServer \<times> (error + reply)" where
  "db_Get s k =
     (case btree_Get (db_tree s) \<lparr>key = k, val = []\<rparr> of
        None \<Rightarrow> (s, Inr (GetReply False []))
      | Some it \<Rightarrow> (s, Inr (GetReply True (val it))))"

definition db_Swap ::
  "(pbCommand \<Rightarrow> error + string) \<Rightarrow> dbServer \<Rightarrow> string \<Rightarrow> string \<Rightarrow> dbServer \<times> (error + reply)" where
  "db_Swap marshal s k v =
     (let got = btree_Get (db_tree s) \<lparr>key = k, val = []\<rparr>;
          cmd = \<lparr>pbOp = OP_SWAP, pbKey = k, pbValue = v\<rparr> in
      (case db_appendLog marshal s cmd of
         (s1, Some err) \<Rightarrow> (s1, Inl err)
       | (s1, None) \<Rightarrow>
           (let s2 = db_applyCommand s1 cmd in
            (case got of
               None \<Rightarrow> (s2, Inr (SwapReply False []))
             | Some it \<Rightarrow> (s2, Inr (SwapReply True (val it)))))))"

definition db_Delete ::
  "(pbCommand \<Rightarrow> error + string) \<Rightarrow> dbServer \<Rightarrow> string \<Rightarrow> dbServer \<times> (error + reply)" where
  "db_Delete marshal s k =
     (let del = btree_Get (db_tree s) \<lparr>key = k, val = []\<rparr>;
          cmd = \<lparr>pbOp = OP_DELETE, pbKey = k, pbValue = []\<rparr> in
      (case db_appendLog marshal s cmd of
         (s1, Some err) \<Rightarrow> (s1, Inl err)
       | (s1, None) \<Rightarrow> (db_applyCommand s1 cmd, Inr (DeleteReply (del \<noteq> None)))))"

definition db_Scan :: "dbServer \<Rightarrow> string \<Rightarrow> string \<Rightarrow> dbServer \<times> (error + reply)" where
  "db_Scan s startKey endKey =
     (let pairs =
        btree_AscendGreaterOrEqual (db_tree s) \<lparr>key = startKey, val = []\<rparr>
          (\<lambda>it pairs.
             if key it > endKey then (False, pairs)
             else (True, pairs @ [(key it, val it)]))
          []
      in (s, Inr (ScanReply pairs)))"

section \<open>Requests, runs and the records of a log\<close>

text \<open>The five requests of the protocol, and a server answering a sequence of them one
  after the other: the transport hands each request to its handler.\<close>

datatype request =
    PutRequest string string
  | GetRequest string
  | SwapRequest string string
  | DeleteRequest string
  | ScanRequest string string

definition serve :: "kvServer \<Rightarrow> request \<Rightarrow> kvServer \<times> (error + reply)" where
  "serve s req =
     (case req of
        PutRequest k v \<Rightarrow> Put s k v
      | GetRequest k \<Rightarrow> Get s k
      | SwapRequest k v \<Rightarrow> Swap s k v
      | DeleteRequest k \<Rightarrow> Delete s k
      | ScanRequest a b \<Rightarrow> Scan s a b)"

fun run :: "kvServer \<Rightarrow> request list \<Rightarrow> kvServer \<times> (error + reply) list" where
  "run s [] = (s, [])"
| "run s (req # reqs) =
     (case serve s req of
        (s1, out) \<Rightarrow> (case run s1 reqs of (s2, outs) \<Rightarrow> (s2, out # outs)))"

definition db_serve ::
  "(pbCommand \<Rightarrow> error + string) \<Rightarrow> dbServer \<Rightarrow> request \<Rightarrow> dbServer \<times> (error + reply)" where
  "db_serve marshal s req =
     (case req of
        PutRequest k v \<Rightarrow> db_Put marshal s k v
      | GetRequest k \<Rightarrow> db_Get s k
      | SwapRequest k v \<Rightarrow> db_Swap marshal s k v
      | DeleteRequest k \<Rightarrow> db_Delete marshal s k
      | ScanRequest a b \<Rightarrow> db_Scan s a b)"

fun db_run ::
  "(pbCommand \<Rightarrow> error + string) \<Rightarrow> dbServer \<Rightarrow> request list \<Rightarrow> dbServer \<times> (error + reply) list" where
  "db_run marshal s [] = (s, [])"
| "db_run marshal s (req # reqs) =
     (case db_serve marshal s req of
        (s1, out) \<Rightarrow> (case db_run marshal s1 reqs of (s2, outs) \<Rightarrow> (s2, out # outs)))"

text \<open>The bytes \<open>appendWAL\<close> writes for a record: the length of the payload in four
  bytes, then the payload.\<close>

definition frame :: "walCommand \<Rightarrow> string" where
  "frame cmd = PutUint32 (uint32 (length (json_Marshal cmd))) @ json_Marshal cmd"

text \<open>
  The records a replay of the bytes decodes, in order, with the bytes left unread when it
  stops and the error it stops with: the sequence \<open>replayWAL\<close> hands to \<open>applyCommand\<close>,
  read off the bytes alone. A frame cut short at the end of the bytes stops the replay
  without an error, unless the cut is right after the length.
\<close>

function wal_records :: "string \<Rightarrow> walCommand list \<times> string \<times> error option" where
  "wal_records bs =
     (if length bs < 4 then ([], bs, None)
      else
        (let sz = Uint32 (take 4 bs); rest = drop 4 bs in
         if sz > maxWALFrameSize then ([], bs, Some (WalFrameTooLarge sz))
         else if length rest < sz then
           (if rest = [] then ([], bs, Some (ReadWalFramePayload EOF)) else ([], bs, None))
         else
           (case decodeCommand (take sz rest) of
              Inl e \<Rightarrow> ([], bs, Some e)
            | Inr cmd \<Rightarrow>
                (case wal_records (drop sz rest) of
                   (cs, unread, e) \<Rightarrow> (cmd # cs, unread, e)))))"
  by pat_completeness auto

termination wal_records
  by (relation "measure length") auto

declare wal_records.simps [simp del]

lemma wal_records_Nil: "wal_records [] = ([], [], None)"
  by (simp add: wal_records.simps)

lemma next_outcome_healthy: "script f = [] \<Longrightarrow> next_outcome f = (Succeeds, f)"
  by (simp add: next_outcome_def)

lemma writeFull_eq:
  "writeFull w dat =
     (if dat = [] then (w, None)
      else
        (case next_outcome w of
           (Succeeds, w') \<Rightarrow> (store w' dat, None)
         | (Fails n, w') \<Rightarrow> (store w' (take n dat), Some DeviceError)))"
proof (cases "dat = []")
  case True
  then show ?thesis by (simp add: writeFull.simps)
next
  case False
  obtain o' w' where n: "next_outcome w = (o', w')" by (cases "next_outcome w")
  show ?thesis
  proof (cases o')
    case Succeeds
    then show ?thesis using False n
      by (simp add: writeFull.simps [of w dat] Write_def writeFull.simps [of _ "[]"])
  next
    case (Fails k)
    then show ?thesis using False n
      by (simp add: writeFull.simps [of w dat] Write_def)
  qed
qed

lemma store_at_end:
  "offset f = length (data f) \<Longrightarrow>
     store f b = f\<lparr>data := data f @ b, offset := length (data f) + length b\<rparr>"
  by (simp add: store_def)

lemma appendWAL_healthy:
  assumes "script (logFile s) = []" "offset (logFile s) = length (data (logFile s))"
  shows "appendWAL s cmd =
     (if \<not> isValidOp (Op cmd) then (s, Some (UnknownWalOp (Op cmd)))
      else if length (json_Marshal cmd) > maxWALFrameSize
      then (s, Some (WalPayloadTooLarge (length (json_Marshal cmd))))
      else (s\<lparr>logFile := (logFile s)\<lparr>data := data (logFile s) @ frame cmd,
               offset := length (data (logFile s) @ frame cmd)\<rparr>\<rparr>, None))"
proof -
  have p: "PutUint32 v \<noteq> []" for v by (simp add: PutUint32_def)
  have m: "json_Marshal cmd \<noteq> []" by (simp add: json_Marshal_def)
  show ?thesis using assms p m
    by (simp add: appendWAL_def Let_def writeFull_eq next_outcome_healthy store_at_end Sync_def
        frame_def)
qed


lemma Uint32_PutUint32:
  assumes "n \<le> maxWALFrameSize"
  shows "Uint32 (PutUint32 (uint32 n) @ bs) = n"
proof -
  have n: "n \<le> 1024" using assms by (simp add: maxWALFrameSize_def)
  then have u: "uint32 n = n" by (simp add: uint32_def)
  have z: "n div 2 ^ 24 = 0" "n div 2 ^ 16 = 0" using n by simp_all
  have "n = n div 256 * 256 + n mod 256" by simp
  moreover have "n div 256 < 256" using n by simp
  ultimately have "n div 256 mod 256 * 256 + n mod 256 = n" by simp
  then show "Uint32 (PutUint32 (uint32 n) @ bs) = n"
    by (simp add: Uint32_def PutUint32_def u z of_char_of)
qed

lemma length_PutUint32: "length (PutUint32 v) = 4"
  by (simp add: PutUint32_def)

lemma ValidString_ops:
  "isValidOp op \<Longrightarrow> ValidString op"
  by (auto simp: isValidOp_def ValidString_ascii)

lemma decodeCommand_Marshal:
  assumes "isValidOp (Op cmd)" "ValidString (Key cmd)" "ValidString (Value cmd)"
  shows "decodeCommand (json_Marshal cmd) = Inr cmd"
  using json_roundtrip [OF ValidString_ops [OF assms(1)] assms(2,3)] assms(1)
  by (simp add: decodeCommand_def)

definition utf8_cmd :: "walCommand \<Rightarrow> bool" where
  "utf8_cmd cmd = (ValidString (Key cmd) \<and> ValidString (Value cmd))"

lemma wal_records_step:
  assumes "length h = 4" "Uint32 h = sz" "sz \<le> maxWALFrameSize" "length p = sz"
    "decodeCommand p = Inr cmd"
  shows "wal_records (h @ p @ bs) =
     (case wal_records bs of (cs, unread, e) \<Rightarrow> (cmd # cs, unread, e))"
proof -
  have a: "\<not> length (h @ p @ bs) < 4" "take 4 (h @ p @ bs) = h" "drop 4 (h @ p @ bs) = p @ bs"
    using assms(1) by simp_all
  have b: "\<not> sz > maxWALFrameSize" "\<not> length (p @ bs) < sz" "take sz (p @ bs) = p"
    "drop sz (p @ bs) = bs"
    using assms(3,4) by simp_all
  show ?thesis
    by (subst wal_records.simps) (simp only: a b assms(2,5) Let_def if_False sum.case)
qed

lemma wal_records_frame:
  assumes "isValidOp (Op cmd)" "utf8_cmd cmd" "length (json_Marshal cmd) \<le> maxWALFrameSize"
  shows "wal_records (frame cmd @ bs) =
     (case wal_records bs of (cs, unread, e) \<Rightarrow> (cmd # cs, unread, e))"
proof -
  let ?p = "json_Marshal cmd"
  let ?h = "PutUint32 (uint32 (length ?p))"
  have f: "frame cmd @ bs = ?h @ ?p @ bs" by (simp add: frame_def)
  have d: "decodeCommand ?p = Inr cmd"
    using decodeCommand_Marshal assms(1,2) by (simp add: utf8_cmd_def)
  have u: "Uint32 ?h = length ?p" using Uint32_PutUint32 [OF assms(3), of "[]"] by simp
  show ?thesis unfolding f
    by (rule wal_records_step [OF length_PutUint32 u assms(3) refl d])
qed

lemma decodeCommand_Marshal_coerced:
  assumes "isValidOp (Op cmd)"
  shows "decodeCommand (json_Marshal cmd)
     = Inr \<lparr>Op = Op cmd, Key = coerced (Key cmd), Value = coerced (Value cmd)\<rparr>"
  using assms coerced_valid [OF ValidString_ops [OF assms]]
  by (simp add: decodeCommand_def json_roundtrip_coerced)

lemma wal_records_frame_coerced:
  assumes "isValidOp (Op cmd)" "length (json_Marshal cmd) \<le> maxWALFrameSize"
  shows "wal_records (frame cmd @ bs) =
     (case wal_records bs of
        (cs, unread, e) \<Rightarrow>
          (\<lparr>Op = Op cmd, Key = coerced (Key cmd), Value = coerced (Value cmd)\<rparr> # cs, unread, e))"
proof -
  let ?p = "json_Marshal cmd"
  let ?h = "PutUint32 (uint32 (length ?p))"
  have f: "frame cmd @ bs = ?h @ ?p @ bs" by (simp add: frame_def)
  have u: "Uint32 ?h = length ?p" using Uint32_PutUint32 [OF assms(2), of "[]"] by simp
  show ?thesis unfolding f
    by (rule wal_records_step [OF length_PutUint32 u assms(2) refl
          decodeCommand_Marshal_coerced [OF assms(1)]])
qed

lemma wal_records_unknown_op:
  assumes "length payload \<le> maxWALFrameSize" "decodeCommand payload = Inl err"
  shows "wal_records (PutUint32 (uint32 (length payload)) @ payload @ bs)
     = ([], PutUint32 (uint32 (length payload)) @ payload @ bs, Some err)"
proof -
  let ?h = "PutUint32 (uint32 (length payload))"
  have u: "Uint32 ?h = length payload" using Uint32_PutUint32 [OF assms(1), of "[]"] by simp
  have a: "\<not> length (?h @ payload @ bs) < 4" "take 4 (?h @ payload @ bs) = ?h"
    "drop 4 (?h @ payload @ bs) = payload @ bs"
    by (simp_all add: length_PutUint32)
  have b: "\<not> length payload > maxWALFrameSize" "\<not> length (payload @ bs) < length payload"
    "take (length payload) (payload @ bs) = payload"
    using assms(1) by simp_all
  show ?thesis
    by (subst wal_records.simps) (simp only: a b u assms(2) Let_def if_False sum.case)
qed

lemma wal_records_append:
  "wal_records a = (cs, [], None) \<Longrightarrow>
     wal_records (a @ b) = (case wal_records b of (cs', unread, e) \<Rightarrow> (cs @ cs', unread, e))"
proof (induction a arbitrary: cs rule: wal_records.induct)
  case (1 bs)
  show ?case
  proof (cases "length bs < 4")
    case True
    then have "bs = []" "cs = []" using "1.prems" by (simp_all add: wal_records.simps [of bs])
    then show ?thesis by (simp split: prod.splits)
  next
    case False
    define sz where "sz = Uint32 (take 4 bs)"
    define rest where "rest = drop 4 bs"
    have sz: "\<not> sz > maxWALFrameSize" and len: "\<not> length rest < sz"
      using "1.prems" False
      by (auto simp: wal_records.simps [of bs] Let_def sz_def rest_def split: if_splits)
    obtain cmd where dec: "decodeCommand (take sz rest) = Inr cmd"
      using "1.prems" False sz len
      by (cases "decodeCommand (take sz rest)")
        (auto simp: wal_records.simps [of bs] Let_def sz_def rest_def)
    obtain cs0 where tl: "wal_records (drop sz rest) = (cs0, [], None)" and cs: "cs = cmd # cs0"
      using "1.prems" False sz len dec
      by (auto simp: wal_records.simps [of bs] Let_def sz_def rest_def split: prod.splits)
    have IH: "wal_records (drop sz rest @ b) =
        (case wal_records b of (cs', unread, e) \<Rightarrow> (cs0 @ cs', unread, e))"
      using "1.IH" [OF False sz_def rest_def sz len dec tl] .
    have "bs = take 4 bs @ rest" by (simp add: rest_def)
    moreover have "rest = take sz rest @ drop sz rest" by (simp only: append_take_drop_id)
    ultimately have bs: "bs @ b = take 4 bs @ take sz rest @ (drop sz rest @ b)"
      by (metis append.assoc)
    have st: "wal_records (bs @ b) =
        (case wal_records (drop sz rest @ b) of (cs', unread, e) \<Rightarrow> (cmd # cs', unread, e))"
      unfolding bs
      by (rule wal_records_step [of _ sz]) (use False sz len dec in \<open>simp_all add: sz_def\<close>)
    show ?thesis unfolding st IH cs by (simp split: prod.splits)
  qed
qed

lemma readFull_healthy:
  assumes "script f = []"
  shows "readFullWithEOFAsBoundary f n =
     (f\<lparr>offset := offset f + length (take n (drop (offset f) (data f)))\<rparr>,
      take n (drop (offset f) (data f)),
      if length (take n (drop (offset f) (data f))) = n then None
      else if take n (drop (offset f) (data f)) = [] then Some EOF
      else Some ErrUnexpectedEOF)"
  using assms
  by (auto simp: readFullWithEOFAsBoundary_def ReadFull_def next_outcome_healthy Let_def)

lemma applyCommand_logFile:
  "applyCommand (s\<lparr>logFile := f\<rparr>) cmd = (applyCommand s cmd)\<lparr>logFile := f\<rparr>"
  by (simp add: applyCommand_def)

lemma foldl_applyCommand_logFile:
  "foldl applyCommand (s\<lparr>logFile := f\<rparr>) cs = (foldl applyCommand s cs)\<lparr>logFile := f\<rparr>"
  by (induction cs arbitrary: s) (simp_all add: applyCommand_logFile)

lemma logFile_foldl_applyCommand: "logFile (foldl applyCommand s cs) = logFile s"
  by (induction cs arbitrary: s) (simp_all add: logFile_applyCommand)

lemma replayWAL_loop_records:
  assumes "bs = drop (offset (logFile s)) (data (logFile s))" "script (logFile s) = []"
    "wal_records bs = (cs, unread, e)"
  shows "\<exists>pos. replayWAL_loop s =
     ((foldl applyCommand s cs)\<lparr>logFile := (logFile s)\<lparr>offset := pos\<rparr>\<rparr>, e)"
  using assms
proof (induction bs arbitrary: s cs rule: wal_records.induct)
  case (1 bs)
  let ?f = "logFile s"
  note rd = readFull_healthy [OF "1.prems"(2)]
  have bs: "drop (offset ?f) (data ?f) = bs" using "1.prems"(1) by simp
  show ?case
  proof (cases "length bs < 4")
    case True
    then have r: "cs = []" "e = None" using "1.prems"(3) by (auto simp: wal_records.simps [of bs])
    have "replayWAL_loop s = (s\<lparr>logFile := ?f\<lparr>offset := offset ?f + length (take 4 bs)\<rparr>\<rparr>, None)"
      by (subst replayWAL_loop.simps) (use True in \<open>simp add: rd bs\<close>)
    then show ?thesis unfolding r by auto
  next
    case False
    define sz where "sz = Uint32 (take 4 bs)"
    define rest where "rest = drop 4 bs"
    define f1 where "f1 = ?f\<lparr>offset := offset ?f + 4\<rparr>"
    have l4: "length (take 4 bs) = 4" using False by simp
    have r1: "readFullWithEOFAsBoundary ?f 4 = (f1, take 4 bs, None)"
      using False by (auto simp: rd bs f1_def)
    have f1: "script f1 = []" "data f1 = data ?f" "offset f1 = offset ?f + 4"
      using "1.prems"(2) by (simp_all add: f1_def)
    have rest: "drop (offset f1) (data f1) = rest"
      by (simp add: f1 rest_def bs [symmetric] add.commute)
    note rd2 = readFull_healthy [OF f1(1), of sz, unfolded rest]
    show ?thesis
    proof (cases "sz > maxWALFrameSize")
      case True
      then have r: "cs = []" "e = Some (WalFrameTooLarge sz)"
        using "1.prems"(3) False by (auto simp: wal_records.simps [of bs] Let_def sz_def)
      have "replayWAL_loop s = (s\<lparr>logFile := f1\<rparr>, e)"
        by (subst replayWAL_loop.simps) (use True in \<open>simp add: r1 r sz_def [symmetric]\<close>)
      then show ?thesis unfolding r f1_def by auto
    next
      case big: False
      show ?thesis
      proof (cases "length rest < sz")
        case True
        then have r: "cs = []" "e = (if rest = [] then Some (ReadWalFramePayload EOF) else None)"
          using "1.prems"(3) False big
          by (auto simp: wal_records.simps [of bs] Let_def sz_def rest_def split: if_splits)
        have r2: "readFullWithEOFAsBoundary f1 sz =
            (f1\<lparr>offset := offset f1 + length rest\<rparr>, rest,
             if rest = [] then Some EOF else Some ErrUnexpectedEOF)"
          using True by (simp add: rd2)
        have "replayWAL_loop s = (s\<lparr>logFile := f1\<lparr>offset := offset f1 + length rest\<rparr>\<rparr>, e)"
          by (subst replayWAL_loop.simps) (use big in \<open>simp add: r1 r2 r sz_def [symmetric]\<close>)
        then show ?thesis unfolding r(1) f1_def by auto
      next
        case len: False
        define f2 where "f2 = f1\<lparr>offset := offset f1 + sz\<rparr>"
        have r2: "readFullWithEOFAsBoundary f1 sz = (f2, take sz rest, None)"
          using len by (simp add: rd2 f2_def)
        show ?thesis
        proof (cases "decodeCommand (take sz rest)")
          case (Inl err)
          then have r: "cs = []" "e = Some err"
            using "1.prems"(3) False big len
            by (auto simp: wal_records.simps [of bs] Let_def sz_def rest_def split: if_splits)
          have "replayWAL_loop s = (s\<lparr>logFile := f2\<rparr>, e)"
            by (subst replayWAL_loop.simps)
              (use big Inl in \<open>simp add: r1 r sz_def [symmetric] r2\<close>)
          then show ?thesis unfolding r(1) f2_def f1_def by auto
        next
          case (Inr cmd)
          obtain cs0 where tl: "wal_records (drop sz rest) = (cs0, unread, e)" and cs: "cs = cmd # cs0"
            using "1.prems"(3) False big len Inr
            by (auto simp: wal_records.simps [of bs] Let_def sz_def rest_def split: prod.splits)
          let ?s' = "applyCommand (s\<lparr>logFile := f2\<rparr>) cmd"
          have lf: "logFile ?s' = f2" by (simp add: logFile_applyCommand)
          have d: "drop sz rest = drop (offset (logFile ?s')) (data (logFile ?s'))"
            unfolding lf by (simp add: f2_def rest [symmetric] add.commute)
          have sc: "script (logFile ?s') = []" unfolding lf by (simp add: f2_def f1)
          from "1.IH" [OF False sz_def rest_def big len Inr d sc tl]
          obtain pos where IH: "replayWAL_loop ?s' =
              ((foldl applyCommand ?s' cs0)\<lparr>logFile := (logFile ?s')\<lparr>offset := pos\<rparr>\<rparr>, e)"
            by blast
          have st: "replayWAL_loop s = replayWAL_loop ?s'"
            by (subst replayWAL_loop.simps)
              (use big Inr in \<open>simp add: r1 sz_def [symmetric] r2\<close>)
          have "(foldl applyCommand ?s' cs0)\<lparr>logFile := (logFile ?s')\<lparr>offset := pos\<rparr>\<rparr>
              = (foldl applyCommand s cs)\<lparr>logFile := ?f\<lparr>offset := pos\<rparr>\<rparr>"
            unfolding lf by (simp add: cs applyCommand_logFile foldl_applyCommand_logFile f2_def f1_def)
          then show ?thesis using st IH by auto
        qed
      qed
    qed
  qed
qed

section \<open>Properties of the ordered index\<close>

text \<open>The list of a tree is strictly ascending in the keys: no key occurs twice.\<close>

definition ordered :: "item list \<Rightarrow> bool" where
  "ordered t = sorted_wrt (<) (map key t)"

lemma ordered_Nil [simp]: "ordered []"
  by (simp add: ordered_def)

lemma ordered_Cons: "ordered (y # ys) = ((\<forall>z \<in> set ys. key y < key z) \<and> ordered ys)"
  by (auto simp: ordered_def)

lemma set_ReplaceOrInsert:
  "set (fst (btree_ReplaceOrInsert t x)) \<subseteq> insert x (set t)"
  by (induction t) (auto simp: Less_def split: prod.splits)

lemma ordered_ReplaceOrInsert: "ordered t \<Longrightarrow> ordered (fst (btree_ReplaceOrInsert t x))"
proof (induction t)
  case Nil
  then show ?case by (simp add: ordered_def)
next
  case (Cons y ys)
  then show ?case
    using set_ReplaceOrInsert [of ys x]
    by (fastforce simp: ordered_Cons Less_def split: prod.splits)
qed

lemma set_Delete: "set (fst (btree_Delete t x)) \<subseteq> set t"
  by (induction t) (auto simp: Less_def split: prod.splits)

lemma ordered_Delete: "ordered t \<Longrightarrow> ordered (fst (btree_Delete t x))"
proof (induction t)
  case Nil
  then show ?case by simp
next
  case (Cons y ys)
  then show ?case
    using set_Delete [of ys x]
    by (fastforce simp: ordered_Cons Less_def split: prod.splits)
qed

lemma Delete_filter:
  "ordered t \<Longrightarrow> fst (btree_Delete t x) = filter (\<lambda>it. key it \<noteq> key x) t"
proof (induction t)
  case Nil
  then show ?case by simp
next
  case (Cons y ys)
  have later: "filter (\<lambda>it. key it \<noteq> key x) ys = ys" if "\<not> key y < key x"
    using that Cons.prems by (fastforce simp: ordered_Cons filter_id_conv)
  show ?case using Cons later
    by (auto simp: Less_def ordered_Cons split: prod.splits)
qed

text \<open>The entry stored under a key, read off the list of items.\<close>

definition stored :: "item list \<Rightarrow> string \<Rightarrow> item option" where
  "stored t k = find (\<lambda>it. key it = k) t"

lemma btree_Get_stored: "ordered t \<Longrightarrow> btree_Get t x = stored t (key x)"
proof (induction t)
  case Nil
  then show ?case by (simp add: stored_def)
next
  case (Cons y ys)
  have "stored ys (key x) = None" if "key x < key y"
    using that Cons.prems by (auto simp: stored_def find_None_iff ordered_Cons)
  then show ?case using Cons
    by (auto simp: stored_def Less_def ordered_Cons)
qed

lemma stored_ReplaceOrInsert:
  "ordered t \<Longrightarrow> stored (fst (btree_ReplaceOrInsert t x)) k =
     (if k = key x then Some x else stored t k)"
proof (induction t)
  case Nil
  then show ?case by (simp add: stored_def)
next
  case (Cons y ys)
  then show ?case
    by (auto simp: stored_def Less_def ordered_Cons split: prod.splits)
qed

lemma stored_Delete:
  "ordered t \<Longrightarrow> stored (fst (btree_Delete t x)) k =
     (if k = key x then None else stored t k)"
proof (induction t)
  case Nil
  then show ?case by (simp add: stored_def)
next
  case (Cons y ys)
  have "stored ys (key x) = None" if "\<not> key y < key x"
    using that Cons.prems by (force simp: stored_def find_None_iff ordered_Cons)
  then show ?case using Cons
    by (auto simp: stored_def Less_def ordered_Cons split: prod.splits)
qed

lemma stored_Some_iff: "ordered t \<Longrightarrow> stored t k = Some it \<longleftrightarrow> it \<in> set t \<and> key it = k"
proof (induction t)
  case Nil
  then show ?case by (simp add: stored_def)
next
  case (Cons y ys)
  then show ?case by (auto simp: stored_def ordered_Cons)
qed

section \<open>Range scans\<close>

lemma Ascend_range:
  "ordered t \<Longrightarrow>
   btree_AscendGreaterOrEqual t \<lparr>key = a, val = v0\<rparr>
     (\<lambda>it pairs. if key it > b then (False, pairs) else (True, pairs @ [(key it, val it)])) acc
   = acc @ map (\<lambda>it. (key it, val it)) (filter (\<lambda>it. a \<le> key it \<and> key it \<le> b) t)"
proof (induction t arbitrary: acc)
  case Nil
  then show ?case by simp
next
  case (Cons y ys)
  have later: "filter (\<lambda>it. a \<le> key it \<and> key it \<le> b) ys = []" if "b < key y"
    using that Cons.prems by (fastforce simp: ordered_Cons filter_empty_conv)
  show ?case using Cons later
    by (auto simp: Less_def ordered_Cons)
qed

lemma sorted_filter_keys:
  "ordered t \<Longrightarrow> sorted_wrt (<) (map fst (map (\<lambda>it. (key it, val it)) (filter P t)))"
  unfolding ordered_def by (induction t) auto

lemma filter_own_key:
  "ordered t \<Longrightarrow> it \<in> set t \<Longrightarrow>
     filter (\<lambda>x. key it \<le> key x \<and> key x \<le> key it) t = [it]"
proof (induction t)
  case Nil
  then show ?case by simp
next
  case (Cons y ys)
  show ?case
  proof (cases "it = y")
    case True
    have "filter (\<lambda>x. key y \<le> key x \<and> key x \<le> key y) ys = []"
      using Cons.prems(1) by (fastforce simp: ordered_Cons filter_empty_conv)
    then show ?thesis using True by simp
  next
    case False
    then have "it \<in> set ys" "key y < key it" using Cons.prems by (auto simp: ordered_Cons)
    then show ?thesis using Cons by (auto simp: ordered_Cons)
  qed
qed

text \<open>
  C6. \<open>Scan\<close> returns exactly the stored entries whose keys lie between the start key and
  the end key, both included, in strictly ascending order of key (so no key twice); the
  reply is empty when the start key is greater than the end key; and for a stored key
  \<open>k\<close>, scanning from \<open>k\<close> to \<open>k\<close> returns its one entry.
\<close>

theorem Scan_inclusive_range:
  "ordered (tree s) \<Longrightarrow>
   Scan s a b = (s, Inr (ScanReply
     (map (\<lambda>it. (key it, val it)) (filter (\<lambda>it. a \<le> key it \<and> key it \<le> b) (tree s)))))
   \<and> sorted_wrt (<) (map fst
     (map (\<lambda>it. (key it, val it)) (filter (\<lambda>it. a \<le> key it \<and> key it \<le> b) (tree s))))
   \<and> (b < a \<longrightarrow> Scan s a b = (s, Inr (ScanReply [])))
   \<and> (\<forall>it \<in> set (tree s). Scan s (key it) (key it) = (s, Inr (ScanReply [(key it, val it)])))"
proof -
  assume o: "ordered (tree s)"
  have sc: "Scan s a b = (s, Inr (ScanReply
      (map (\<lambda>it. (key it, val it)) (filter (\<lambda>it. a \<le> key it \<and> key it \<le> b) (tree s)))))"
    for a b
    using Ascend_range [OF o, of a "[]" b "[]"] by (simp add: Scan_def)
  have "Scan s a b = (s, Inr (ScanReply []))" if "b < a"
  proof -
    have "filter (\<lambda>it. a \<le> key it \<and> key it \<le> b) (tree s) = []"
      using that by (auto simp: filter_empty_conv)
    then show ?thesis using sc [of a b] by simp
  qed
  moreover have "Scan s (key it) (key it) = (s, Inr (ScanReply [(key it, val it)]))"
    if "it \<in> set (tree s)" for it
    using sc [of "key it" "key it"] filter_own_key [OF o that] by simp
  ultimately show ?thesis using sc sorted_filter_keys [OF o] by blast
qed

definition abc_server :: kvServer where
  "abc_server = \<lparr>tree = [\<lparr>key = ''a'', val = ''1''\<rparr>, \<lparr>key = ''b'', val = ''2''\<rparr>,
       \<lparr>key = ''c'', val = ''3''\<rparr>],
     logFile = \<lparr>data = [], offset = 0, script = []\<rparr>\<rparr>"

theorem Scan_inclusive_range_witness:
  "ordered (tree abc_server)
   \<and> Scan abc_server ''a'' ''c'' = (abc_server, Inr (ScanReply [(''a'', ''1''), (''b'', ''2''), (''c'', ''3'')]))
   \<and> Scan abc_server ''b'' ''b'' = (abc_server, Inr (ScanReply [(''b'', ''2'')]))
   \<and> Scan abc_server ''d'' ''z'' = (abc_server, Inr (ScanReply []))
   \<and> Scan abc_server ''c'' ''a'' = (abc_server, Inr (ScanReply []))"
proof -
  have o: "ordered (tree abc_server)" by (simp add: abc_server_def ordered_def)
  show ?thesis
    using Scan_inclusive_range [OF o, of "''a''" "''c''"]
      Scan_inclusive_range [OF o, of "''b''" "''b''"]
      Scan_inclusive_range [OF o, of "''d''" "''z''"]
      Scan_inclusive_range [OF o, of "''c''" "''a''"] o
    by (simp add: abc_server_def)
qed

section \<open>Reads\<close>

text \<open>
  C10. \<open>Get\<close> and \<open>Scan\<close> never return an error and leave the server as it was: the
  tree, the bytes of the log and the position of its handle. The same holds for \<open>Get\<close> of
  the database-backed variant.
\<close>

theorem reads_never_fail_and_change_nothing:
  "fst (Get s k) = s \<and> (\<exists>r. snd (Get s k) = Inr r)
   \<and> fst (Scan s a b) = s \<and> (\<exists>r. snd (Scan s a b) = Inr r)
   \<and> fst (db_Get d k) = d \<and> (\<exists>r. snd (db_Get d k) = Inr r)"
  by (simp add: Get_def Scan_def db_Get_def Let_def split: option.split)

section \<open>Mutations and the log\<close>

lemma tree_appendWAL: "tree (fst (appendWAL s cmd)) = tree s"
  by (auto simp: appendWAL_def Let_def split: if_splits prod.splits option.splits)

lemmas json_eval = json_Marshal_def appendString_def appendString_loop.simps(2) htmlSafeSet_def

lemmas bytes_eval = PutUint32_def uint32_def char_of_def bit_Suc_0_iff

text \<open>
  C3. When the append to the log fails, \<open>Put\<close>, \<open>Swap\<close> and \<open>Delete\<close> return the error of the
  append to the caller and the index is as it was before the request.
\<close>

theorem failed_append_leaves_index:
  "(appendWAL s \<lparr>Op = ''put'', Key = k, Value = v\<rparr> = (s1, Some err)
      \<longrightarrow> Put s k v = (s1, Inl err) \<and> tree s1 = tree s)
   \<and> (appendWAL s \<lparr>Op = ''swap'', Key = k, Value = v\<rparr> = (s1, Some err)
      \<longrightarrow> Swap s k v = (s1, Inl err) \<and> tree s1 = tree s)
   \<and> (appendWAL s \<lparr>Op = ''delete'', Key = k, Value = []\<rparr> = (s1, Some err)
      \<longrightarrow> Delete s k = (s1, Inl err) \<and> tree s1 = tree s)"
proof -
  have t: "tree s1 = tree s" if "appendWAL s cmd = (s1, e)" for cmd e
    using tree_appendWAL [of s cmd] that by simp
  show ?thesis
    by (auto simp: Put_def Swap_def Delete_def Let_def t)
qed

definition failing_server :: kvServer where
  "failing_server = \<lparr>tree = [\<lparr>key = ''a'', val = ''1''\<rparr>],
     logFile = \<lparr>data = [], offset = 0, script = [Succeeds, Fails 2]\<rparr>\<rparr>"

lemma appendWAL_failing_server:
  "appendWAL failing_server \<lparr>Op = ''put'', Key = ''a'', Value = ''2''\<rparr> =
     (failing_server\<lparr>logFile :=
        \<lparr>data = [CHR 0x00, CHR 0x00, CHR 0x00, CHR 0x22, CHR ''{'', DQ], offset = 6, script = []\<rparr>\<rparr>,
      Some (WriteWalFramePayload DeviceError))"
  by (simp add: appendWAL_def isValidOp_def json_eval maxWALFrameSize_def writeFull_eq
      next_outcome_def failing_server_def store_def bytes_eval)

theorem failed_append_leaves_index_witness:
  "Put failing_server ''a'' ''2'' =
     (failing_server\<lparr>logFile :=
        \<lparr>data = [CHR 0x00, CHR 0x00, CHR 0x00, CHR 0x22, CHR ''{'', DQ], offset = 6, script = []\<rparr>\<rparr>,
      Inl (WriteWalFramePayload DeviceError))
   \<and> tree (fst (Put failing_server ''a'' ''2'')) = [\<lparr>key = ''a'', val = ''1''\<rparr>]"
  using failed_append_leaves_index [of failing_server "''a''" "''2''" _
      "WriteWalFramePayload DeviceError"] appendWAL_failing_server
  by (simp add: failing_server_def)

text \<open>The server after a successful append on a healthy device with the handle at the end
  of the log.\<close>

definition appended :: "kvServer \<Rightarrow> walCommand \<Rightarrow> kvServer" where
  "appended s cmd =
     s\<lparr>logFile := (logFile s)\<lparr>data := data (logFile s) @ frame cmd,
                               offset := length (data (logFile s) @ frame cmd)\<rparr>\<rparr>"

definition at_end :: "kvServer \<Rightarrow> bool" where
  "at_end s = (script (logFile s) = [] \<and> offset (logFile s) = length (data (logFile s)))"

lemma appendWAL_at_end:
  assumes "at_end s" "isValidOp (Op cmd)"
  shows "appendWAL s cmd =
     (if length (json_Marshal cmd) > maxWALFrameSize
      then (s, Some (WalPayloadTooLarge (length (json_Marshal cmd))))
      else (appended s cmd, None))"
  using assms appendWAL_healthy [of s cmd] by (simp add: at_end_def appended_def)

lemma at_end_appended: "at_end s \<Longrightarrow> at_end (appended s cmd)"
  by (simp add: at_end_def appended_def)

lemma at_end_applyCommand: "at_end (applyCommand s cmd) = at_end s"
  by (simp add: at_end_def logFile_applyCommand)

lemma tree_appended: "tree (appended s cmd) = tree s"
  by (simp add: appended_def)

lemma tree_applyCommand_delete:
  "tree (applyCommand s \<lparr>Op = ''delete'', Key = k, Value = v\<rparr>)
     = fst (btree_Delete (tree s) \<lparr>key = k, val = []\<rparr>)"
  by (simp add: applyCommand_def)

lemma tree_applyCommand_upsert:
  "op = ''put'' \<or> op = ''swap'' \<Longrightarrow>
   tree (applyCommand s \<lparr>Op = op, Key = k, Value = v\<rparr>)
     = fst (btree_ReplaceOrInsert (tree s) \<lparr>key = k, val = v\<rparr>)"
  by (auto simp: applyCommand_def)

lemma Delete_at_end:
  assumes "at_end s"
  shows "Delete s k =
     (let cmd = \<lparr>Op = ''delete'', Key = k, Value = []\<rparr> in
      if length (json_Marshal cmd) > maxWALFrameSize
      then (s, Inl (WalPayloadTooLarge (length (json_Marshal cmd))))
      else (applyCommand (appended s cmd) cmd,
            Inr (DeleteReply (btree_Get (tree s) \<lparr>key = k, val = []\<rparr> \<noteq> None))))"
  using appendWAL_at_end [OF assms, of "\<lparr>Op = ''delete'', Key = k, Value = []\<rparr>"]
  by (simp add: Delete_def Let_def isValidOp_def)

lemma Put_at_end:
  assumes "at_end s"
  shows "Put s k v =
     (let cmd = \<lparr>Op = ''put'', Key = k, Value = v\<rparr> in
      if length (json_Marshal cmd) > maxWALFrameSize
      then (s, Inl (WalPayloadTooLarge (length (json_Marshal cmd))))
      else (applyCommand (appended s cmd) cmd,
            Inr (PutReply (btree_Get (tree s) \<lparr>key = k, val = []\<rparr> \<noteq> None))))"
  using appendWAL_at_end [OF assms, of "\<lparr>Op = ''put'', Key = k, Value = v\<rparr>"]
  by (simp add: Put_def Let_def isValidOp_def)

lemma Swap_at_end:
  assumes "at_end s"
  shows "Swap s k v =
     (let cmd = \<lparr>Op = ''swap'', Key = k, Value = v\<rparr> in
      if length (json_Marshal cmd) > maxWALFrameSize
      then (s, Inl (WalPayloadTooLarge (length (json_Marshal cmd))))
      else (applyCommand (appended s cmd) cmd,
            Inr (case btree_Get (tree s) \<lparr>key = k, val = []\<rparr> of
                   None \<Rightarrow> SwapReply False []
                 | Some it \<Rightarrow> SwapReply True (val it))))"
  using appendWAL_at_end [OF assms, of "\<lparr>Op = ''swap'', Key = k, Value = v\<rparr>"]
  by (simp add: Swap_def Let_def isValidOp_def split: option.splits)


text \<open>A server with an empty index on an empty log, and a key whose \<open>delete\<close> record is
  over the frame bound.\<close>

definition empty_server :: kvServer where
  "empty_server = \<lparr>tree = btree_New, logFile = \<lparr>data = [], offset = 0, script = []\<rparr>\<rparr>"

lemma appendString_loop_plain:
  "appendString_loop (replicate n (CHR ''k'')) = replicate n (CHR ''k'')"
  by (induction n) (simp_all add: appendString_loop.simps(2) htmlSafeSet_def)

lemma at_end_empty_server: "at_end empty_server"
  by (simp add: at_end_def empty_server_def)

lemma length_Marshal_oversize:
  "length (json_Marshal \<lparr>Op = ''delete'', Key = replicate 1100 (CHR ''k''), Value = []\<rparr>) = 1124"
  by (simp add: json_Marshal_def appendString_def appendString_loop_plain)
    (simp add: appendString_loop.simps(2) htmlSafeSet_def)

text \<open>The record the handler of a request appends to the log: none for a read.\<close>

fun record_of :: "request \<Rightarrow> walCommand option" where
  "record_of (PutRequest k v) = Some \<lparr>Op = ''put'', Key = k, Value = v\<rparr>"
| "record_of (GetRequest k) = None"
| "record_of (SwapRequest k v) = Some \<lparr>Op = ''swap'', Key = k, Value = v\<rparr>"
| "record_of (DeleteRequest k) = Some \<lparr>Op = ''delete'', Key = k, Value = []\<rparr>"
| "record_of (ScanRequest a b) = None"

fun db_record_of :: "request \<Rightarrow> pbCommand option" where
  "db_record_of (PutRequest k v) = Some \<lparr>pbOp = OP_PUT, pbKey = k, pbValue = v\<rparr>"
| "db_record_of (GetRequest k) = None"
| "db_record_of (SwapRequest k v) = Some \<lparr>pbOp = OP_SWAP, pbKey = k, pbValue = v\<rparr>"
| "db_record_of (DeleteRequest k) = Some \<lparr>pbOp = OP_DELETE, pbKey = k, pbValue = []\<rparr>"
| "db_record_of (ScanRequest a b) = None"

text \<open>The record of a request is within the frame bound of the file-backed log.\<close>

definition fits_frame :: "request \<Rightarrow> bool" where
  "fits_frame req =
     (case record_of req of
        None \<Rightarrow> True
      | Some cmd \<Rightarrow> length (json_Marshal cmd) \<le> maxWALFrameSize)"

text \<open>The coder of the database-backed variant encodes the record of a request.\<close>

definition encodes :: "(pbCommand \<Rightarrow> error + string) \<Rightarrow> request \<Rightarrow> bool" where
  "encodes marshal req =
     (case db_record_of req of
        None \<Rightarrow> True
      | Some cmd \<Rightarrow> \<not> isl (marshal cmd))"

lemma record_of_valid: "record_of req = Some cmd \<Longrightarrow> isValidOp (Op cmd)"
  by (cases req) (auto simp: isValidOp_def)

lemma serve_at_end:
  assumes "at_end s" "serve s req = (s1, out)"
  shows "case record_of req of
           None \<Rightarrow> s1 = s \<and> \<not> isl out
         | Some cmd \<Rightarrow>
             if length (json_Marshal cmd) \<le> maxWALFrameSize
             then s1 = applyCommand (appended s cmd) cmd \<and> \<not> isl out
             else s1 = s \<and> out = Inl (WalPayloadTooLarge (length (json_Marshal cmd)))"
proof (cases req)
  case (PutRequest k v)
  then show ?thesis using assms(2)
    by (auto simp: serve_def Put_at_end [OF assms(1)] Let_def split: if_splits)
next
  case (GetRequest k)
  then show ?thesis using assms(2) by (auto simp: serve_def Get_def split: option.splits)
next
  case (SwapRequest k v)
  then show ?thesis using assms(2)
    by (auto simp: serve_def Swap_at_end [OF assms(1)] Let_def split: if_splits option.splits)
next
  case (DeleteRequest k)
  then show ?thesis using assms(2)
    by (auto simp: serve_def Delete_at_end [OF assms(1)] Let_def split: if_splits)
next
  case (ScanRequest a b)
  then show ?thesis using assms(2) by (auto simp: serve_def Scan_def Let_def)
qed

lemma serve_fits:
  assumes "at_end s" "fits_frame req" "serve s req = (s1, out)"
  shows "at_end s1 \<and> \<not> isl out"
proof (cases "record_of req")
  case None
  then show ?thesis using serve_at_end [OF assms(1,3)] assms(1) by simp
next
  case (Some cmd)
  then have "s1 = applyCommand (appended s cmd) cmd \<and> \<not> isl out"
    using serve_at_end [OF assms(1,3)] assms(2) by (simp add: fits_frame_def)
  then show ?thesis by (simp add: at_end_applyCommand at_end_appended [OF assms(1)])
qed

text \<open>
  C7, as amended. On a device where no write or sync fails, with the handle at the end of
  the log (where \<open>newKVServer\<close> leaves it), and for a key whose \<open>delete\<close> record is
  within the frame bound \<open>maxWALFrameSize\<close>: \<open>Delete\<close> replies whether the key was in
  the index before, leaves the index without the key and otherwise as it was, and appends
  its record to the log whether or not the key was there; a second \<open>Delete\<close> of the same
  key is answered too, with \<open>found = false\<close>, and appends its record again.
\<close>

theorem Delete_found_and_idempotent:
  "script (logFile s) = [] \<and> offset (logFile s) = length (data (logFile s))
   \<and> ordered (tree s)
   \<and> length (json_Marshal \<lparr>Op = ''delete'', Key = k, Value = []\<rparr>) \<le> maxWALFrameSize
   \<Longrightarrow> snd (Delete s k) = Inr (DeleteReply (\<exists>it \<in> set (tree s). key it = k))
     \<and> tree (fst (Delete s k)) = filter (\<lambda>it. key it \<noteq> k) (tree s)
     \<and> data (logFile (fst (Delete s k)))
         = data (logFile s) @ frame \<lparr>Op = ''delete'', Key = k, Value = []\<rparr>
     \<and> snd (Delete (fst (Delete s k)) k) = Inr (DeleteReply False)
     \<and> tree (fst (Delete (fst (Delete s k)) k)) = filter (\<lambda>it. key it \<noteq> k) (tree s)
     \<and> data (logFile (fst (Delete (fst (Delete s k)) k)))
         = data (logFile s) @ frame \<lparr>Op = ''delete'', Key = k, Value = []\<rparr>
             @ frame \<lparr>Op = ''delete'', Key = k, Value = []\<rparr>"
proof -
  let ?cmd = "\<lparr>Op = ''delete'', Key = k, Value = []\<rparr>"
  assume a: "script (logFile s) = [] \<and> offset (logFile s) = length (data (logFile s))
    \<and> ordered (tree s) \<and> length (json_Marshal ?cmd) \<le> maxWALFrameSize"
  then have e: "at_end s" and o: "ordered (tree s)"
    and fits: "\<not> length (json_Marshal ?cmd) > maxWALFrameSize"
    by (simp_all add: at_end_def)
  define s1 where "s1 = applyCommand (appended s ?cmd) ?cmd"
  define s2 where "s2 = applyCommand (appended s1 ?cmd) ?cmd"
  have found: "(btree_Get (tree s) \<lparr>key = k, val = []\<rparr> \<noteq> None) = (\<exists>it \<in> set (tree s). key it = k)"
    using stored_Some_iff [OF o, of k] by (auto simp: btree_Get_stored [OF o])
  have d1: "Delete s k = (s1, Inr (DeleteReply (\<exists>it \<in> set (tree s). key it = k)))"
    using fits found by (simp add: Delete_at_end [OF e] Let_def s1_def)
  have t1: "tree s1 = filter (\<lambda>it. key it \<noteq> k) (tree s)"
    using Delete_filter [OF o, of "\<lparr>key = k, val = []\<rparr>"]
    by (simp add: s1_def tree_applyCommand_delete tree_appended)
  have o1: "ordered (tree s1)"
    using ordered_Delete [OF o, of "\<lparr>key = k, val = []\<rparr>"]
    by (simp add: s1_def tree_applyCommand_delete tree_appended)
  have e1: "at_end s1" by (simp add: s1_def at_end_applyCommand at_end_appended [OF e])
  have "stored (tree s1) k = None" by (simp add: stored_def t1 find_None_iff)
  then have absent: "btree_Get (tree s1) \<lparr>key = k, val = []\<rparr> = None"
    using btree_Get_stored [OF o1, of "\<lparr>key = k, val = []\<rparr>"] by simp
  have d2: "Delete s1 k = (s2, Inr (DeleteReply False))"
    using fits absent by (simp add: Delete_at_end [OF e1] Let_def s2_def)
  have t2: "tree s2 = filter (\<lambda>it. key it \<noteq> k) (tree s)"
    using Delete_filter [OF o1, of "\<lparr>key = k, val = []\<rparr>"]
    by (simp add: s2_def tree_applyCommand_delete tree_appended t1)
  have l1: "data (logFile s1) = data (logFile s) @ frame ?cmd"
    by (simp add: s1_def logFile_applyCommand appended_def)
  have l2: "data (logFile s2) = data (logFile s) @ frame ?cmd @ frame ?cmd"
    by (simp add: s2_def logFile_applyCommand appended_def l1)
  show ?thesis by (simp add: d1 d2 t1 t2 l1 l2)
qed

theorem Delete_found_and_idempotent_witness:
  "snd (Delete abc_server ''b'') = Inr (DeleteReply True)
   \<and> tree (fst (Delete abc_server ''b'')) = [\<lparr>key = ''a'', val = ''1''\<rparr>, \<lparr>key = ''c'', val = ''3''\<rparr>]
   \<and> snd (Delete (fst (Delete abc_server ''b'')) ''b'') = Inr (DeleteReply False)
   \<and> snd (Delete abc_server ''d'') = Inr (DeleteReply False)
   \<and> data (logFile (fst (Delete abc_server ''d''))) = frame \<lparr>Op = ''delete'', Key = ''d'', Value = []\<rparr>"
proof -
  have h: "script (logFile abc_server) = [] \<and>
      offset (logFile abc_server) = length (data (logFile abc_server)) \<and>
      ordered (tree abc_server) \<and>
      length (json_Marshal \<lparr>Op = ''delete'', Key = k, Value = []\<rparr>) \<le> maxWALFrameSize"
    if "k = ''b'' \<or> k = ''d''" for k
    using that by (auto simp: abc_server_def ordered_def json_eval maxWALFrameSize_def)
  from Delete_found_and_idempotent [OF h, of "''b''"] Delete_found_and_idempotent [OF h, of "''d''"]
  show ?thesis by (simp add: abc_server_def)
qed


text \<open>
  C7 as stated fails for a key whose record exceeds the frame bound: \<open>appendWAL\<close>
  refuses the record, and \<open>Delete\<close> returns the error instead of a reply.
\<close>

theorem Delete_oversize_key_counterexample:
  "Delete empty_server (replicate 1100 (CHR ''k'')) = (empty_server, Inl (WalPayloadTooLarge 1124))"
  by (simp add: Delete_at_end [OF at_end_empty_server] Let_def length_Marshal_oversize
      maxWALFrameSize_def)

section \<open>The two variants\<close>

lemma appendWAL_tree: "appendWAL s cmd = (s1, e) \<Longrightarrow> tree s1 = tree s"
  using tree_appendWAL [of s cmd] by simp

lemma db_appendLog_tree: "db_appendLog marshal d cmd = (d1, e) \<Longrightarrow> db_tree d1 = db_tree d"
  by (auto simp: db_appendLog_def split: if_splits sum.splits prod.splits option.splits)

lemma serve_agree:
  assumes "tree s = db_tree d" "serve s req = (s1, Inr r)" "db_serve marshal d req = (d1, Inr r')"
  shows "r = r' \<and> tree s1 = db_tree d1"
proof (cases req)
  case (PutRequest k v)
  then show ?thesis using assms
    by (auto simp: serve_def db_serve_def Put_def db_Put_def Let_def applyCommand_def
        db_applyCommand_def dest!: appendWAL_tree db_appendLog_tree split: prod.splits option.splits)
next
  case (GetRequest k)
  then show ?thesis using assms
    by (auto simp: serve_def db_serve_def Get_def db_Get_def split: option.splits)
next
  case (SwapRequest k v)
  then show ?thesis using assms
    by (auto simp: serve_def db_serve_def Swap_def db_Swap_def Let_def applyCommand_def
        db_applyCommand_def dest!: appendWAL_tree db_appendLog_tree split: prod.splits option.splits)
next
  case (DeleteRequest k)
  then show ?thesis using assms
    by (auto simp: serve_def db_serve_def Delete_def db_Delete_def Let_def applyCommand_def
        db_applyCommand_def dest!: appendWAL_tree db_appendLog_tree split: prod.splits option.splits)
next
  case (ScanRequest a b)
  then show ?thesis using assms
    by (auto simp: serve_def db_serve_def Scan_def db_Scan_def Let_def)
qed

lemma db_appendLog_healthy:
  assumes "db_script (db d) = []" "db_isValidOp (pbOp cmd)" "marshal cmd = Inr payload"
  shows "db_appendLog marshal d cmd = (d\<lparr>db := (db d)\<lparr>rows := rows (db d) @ [payload]\<rparr>\<rparr>, None)"
  using assms by (simp add: db_appendLog_def db_insert_def db_next_outcome_def)

lemma db_script_applyCommand: "db (db_applyCommand d cmd) = db d"
  by (simp add: db_applyCommand_def split: WALCommand_Op.splits)

lemma db_serve_encodes:
  assumes "db_script (db d) = []" "encodes marshal req" "db_serve marshal d req = (d1, out)"
  shows "db_script (db d1) = [] \<and> \<not> isl out"
proof (cases req)
  case (PutRequest k v)
  then obtain payload where m: "marshal \<lparr>pbOp = OP_PUT, pbKey = k, pbValue = v\<rparr> = Inr payload"
    using assms(2) by (cases "marshal \<lparr>pbOp = OP_PUT, pbKey = k, pbValue = v\<rparr>") (auto simp: encodes_def)
  show ?thesis
    using assms(1,3) db_appendLog_healthy [of d "\<lparr>pbOp = OP_PUT, pbKey = k, pbValue = v\<rparr>" marshal payload] m PutRequest
    by (auto simp: db_serve_def db_Put_def db_isValidOp_def Let_def db_script_applyCommand)
next
  case (GetRequest k)
  then show ?thesis using assms(1,3) by (auto simp: db_serve_def db_Get_def split: option.splits)
next
  case (SwapRequest k v)
  then obtain payload where m: "marshal \<lparr>pbOp = OP_SWAP, pbKey = k, pbValue = v\<rparr> = Inr payload"
    using assms(2) by (cases "marshal \<lparr>pbOp = OP_SWAP, pbKey = k, pbValue = v\<rparr>") (auto simp: encodes_def)
  show ?thesis
    using assms(1,3) db_appendLog_healthy [of d "\<lparr>pbOp = OP_SWAP, pbKey = k, pbValue = v\<rparr>" marshal payload] m SwapRequest
    by (auto simp: db_serve_def db_Swap_def db_isValidOp_def Let_def db_script_applyCommand
        split: option.splits)
next
  case (DeleteRequest k)
  then obtain payload where m: "marshal \<lparr>pbOp = OP_DELETE, pbKey = k, pbValue = []\<rparr> = Inr payload"
    using assms(2) by (cases "marshal \<lparr>pbOp = OP_DELETE, pbKey = k, pbValue = []\<rparr>") (auto simp: encodes_def)
  show ?thesis
    using assms(1,3) db_appendLog_healthy [of d "\<lparr>pbOp = OP_DELETE, pbKey = k, pbValue = []\<rparr>" marshal payload] m DeleteRequest
    by (auto simp: db_serve_def db_Delete_def db_isValidOp_def Let_def db_script_applyCommand)
next
  case (ScanRequest a b)
  then show ?thesis using assms(1,3) by (auto simp: db_serve_def db_Scan_def Let_def)
qed

lemma run_agree:
  assumes "tree s = db_tree d" "at_end s" "db_script (db d) = []"
    "list_all fits_frame reqs" "list_all (encodes marshal) reqs"
  shows "snd (run s reqs) = snd (db_run marshal d reqs)
    \<and> list_all (\<lambda>out. \<not> isl out) (snd (run s reqs))
    \<and> tree (fst (run s reqs)) = db_tree (fst (db_run marshal d reqs))"
  using assms
proof (induction reqs arbitrary: s d)
  case Nil
  then show ?case by simp
next
  case (Cons req reqs)
  obtain s1 out where sv: "serve s req = (s1, out)" by (cases "serve s req")
  obtain d1 out' where dsv: "db_serve marshal d req = (d1, out')"
    by (cases "db_serve marshal d req")
  have f: "at_end s1" "\<not> isl out"
    using serve_fits [OF Cons.prems(2) _ sv] Cons.prems(4) by simp_all
  have g: "db_script (db d1) = []" "\<not> isl out'"
    using db_serve_encodes [OF Cons.prems(3) _ dsv] Cons.prems(5) by simp_all
  obtain r r' where ok: "out = Inr r" "out' = Inr r'"
    using f(2) g(2) by (cases out; cases out') auto
  have step: "r = r'" "tree s1 = db_tree d1"
    using serve_agree [OF Cons.prems(1) sv [unfolded ok] dsv [unfolded ok]] by simp_all
  have IH: "snd (run s1 reqs) = snd (db_run marshal d1 reqs)"
    "list_all (\<lambda>out. \<not> isl out) (snd (run s1 reqs))"
    "tree (fst (run s1 reqs)) = db_tree (fst (db_run marshal d1 reqs))"
  proof -
    have p: "list_all fits_frame reqs" "list_all (encodes marshal) reqs"
      using Cons.prems(4,5) by simp_all
    note all = Cons.IH [OF step(2) f(1) g(1) p]
    show "snd (run s1 reqs) = snd (db_run marshal d1 reqs)" using all by (rule conjunct1)
    show "list_all (\<lambda>out. \<not> isl out) (snd (run s1 reqs))"
      using all by (rule conjunct1 [OF conjunct2])
    show "tree (fst (run s1 reqs)) = db_tree (fst (db_run marshal d1 reqs))"
      using all by (rule conjunct2 [OF conjunct2])
  qed
  have r: "run s (req # reqs) = (fst (run s1 reqs), Inr r # snd (run s1 reqs))"
    "db_run marshal d (req # reqs)
       = (fst (db_run marshal d1 reqs), Inr r # snd (db_run marshal d1 reqs))"
    using sv dsv ok step(1) by (simp_all add: split_beta)
  show ?case unfolding r using IH by simp
qed

text \<open>
  C9, as amended. From servers with the same index, on devices where no operation fails
  (the handle of the file at the end of its log), for requests whose records are within
  the frame bound of the file-backed log and are encoded by the coder of the
  database-backed variant: the two servers answer the sequence with the same replies, none
  of them an error, and end with the same index.
\<close>

theorem variants_reply_alike:
  "tree s = db_tree d
   \<and> script (logFile s) = [] \<and> offset (logFile s) = length (data (logFile s))
   \<and> db_script (db d) = []
   \<and> list_all fits_frame reqs \<and> list_all (encodes marshal) reqs
   \<Longrightarrow> snd (run s reqs) = snd (db_run marshal d reqs)
     \<and> list_all (\<lambda>out. \<not> isl out) (snd (run s reqs))
     \<and> tree (fst (run s reqs)) = db_tree (fst (db_run marshal d reqs))"
proof -
  assume a: "tree s = db_tree d
    \<and> script (logFile s) = [] \<and> offset (logFile s) = length (data (logFile s))
    \<and> db_script (db d) = []
    \<and> list_all fits_frame reqs \<and> list_all (encodes marshal) reqs"
  then have "tree s = db_tree d" "at_end s" "db_script (db d) = []"
    "list_all fits_frame reqs" "list_all (encodes marshal) reqs"
    by (simp_all add: at_end_def)
  then show ?thesis by (rule run_agree)
qed

definition empty_dbServer :: dbServer where
  "empty_dbServer = \<lparr>db_tree = btree_New, db = \<lparr>rows = [], db_script = []\<rparr>\<rparr>"

definition basic_flow :: "request list" where
  "basic_flow = [PutRequest ''a'' ''1'', GetRequest ''a'', SwapRequest ''a'' ''2'',
     DeleteRequest ''a'', GetRequest ''a'', ScanRequest ''a'' ''z'']"

definition basic_replies :: "(error + reply) list" where
  "basic_replies = [Inr (PutReply False), Inr (GetReply True ''1''), Inr (SwapReply True ''1''),
     Inr (DeleteReply True), Inr (GetReply False []), Inr (ScanReply [])]"

text \<open>The first scenario of the spec, request by request.\<close>

lemma run_basic_flow: "snd (run empty_server basic_flow) = basic_replies"
proof -
  let ?c1 = "\<lparr>Op = ''put'', Key = ''a'', Value = ''1''\<rparr>"
  let ?c2 = "\<lparr>Op = ''swap'', Key = ''a'', Value = ''2''\<rparr>"
  let ?c3 = "\<lparr>Op = ''delete'', Key = ''a'', Value = []\<rparr>"
  define s1 where "s1 = applyCommand (appended empty_server ?c1) ?c1"
  define s2 where "s2 = applyCommand (appended s1 ?c2) ?c2"
  define s3 where "s3 = applyCommand (appended s2 ?c3) ?c3"
  have e: "at_end s1" "at_end s2" "at_end s3"
    by (simp_all add: s1_def s2_def s3_def at_end_applyCommand at_end_appended
        at_end_empty_server)
  have t1: "tree s1 = [\<lparr>key = ''a'', val = ''1''\<rparr>]"
    by (simp add: s1_def tree_applyCommand_upsert tree_appended empty_server_def btree_New_def)
  have t2: "tree s2 = [\<lparr>key = ''a'', val = ''2''\<rparr>]"
    by (simp add: s2_def tree_applyCommand_upsert tree_appended t1 Less_def)
  have t3: "tree s3 = []"
    by (simp add: s3_def tree_applyCommand_delete tree_appended t2 Less_def)
  have r1: "Put empty_server ''a'' ''1'' = (s1, Inr (PutReply False))"
    by (simp add: Put_at_end [OF at_end_empty_server] Let_def json_eval maxWALFrameSize_def
        s1_def) (simp add: empty_server_def btree_New_def)
  have r2: "Get s1 ''a'' = (s1, Inr (GetReply True ''1''))"
    by (simp add: Get_def t1 Less_def)
  have r3: "Swap s1 ''a'' ''2'' = (s2, Inr (SwapReply True ''1''))"
    by (simp add: Swap_at_end [OF e(1)] Let_def json_eval maxWALFrameSize_def s2_def t1 Less_def)
  have r4: "Delete s2 ''a'' = (s3, Inr (DeleteReply True))"
    by (simp add: Delete_at_end [OF e(2)] Let_def json_eval maxWALFrameSize_def s3_def t2 Less_def)
  have r5: "Get s3 ''a'' = (s3, Inr (GetReply False []))"
    by (simp add: Get_def t3)
  have r6: "Scan s3 ''a'' ''z'' = (s3, Inr (ScanReply []))"
    by (simp add: Scan_def t3)
  show ?thesis
    by (simp add: basic_flow_def basic_replies_def serve_def r1 r2 r3 r4 r5 r6)
qed

theorem variants_reply_alike_witness:
  "snd (run empty_server basic_flow) = basic_replies
   \<and> snd (db_run (\<lambda>cmd. Inr (pbKey cmd)) empty_dbServer basic_flow) = basic_replies"
proof -
  let ?m = "\<lambda>cmd. Inr (pbKey cmd) :: error + string"
  have h: "tree empty_server = db_tree empty_dbServer
    \<and> script (logFile empty_server) = []
    \<and> offset (logFile empty_server) = length (data (logFile empty_server))
    \<and> db_script (db empty_dbServer) = []
    \<and> list_all fits_frame basic_flow \<and> list_all (encodes ?m) basic_flow"
    by (simp add: empty_server_def empty_dbServer_def basic_flow_def fits_frame_def encodes_def
        json_eval maxWALFrameSize_def)
  from variants_reply_alike [OF h] run_basic_flow show ?thesis by simp
qed

text \<open>
  C9 as stated fails for a key whose record is over the frame bound of the file-backed
  log: no operation of either device fails, and the file-backed server returns an error
  where the database-backed server, whatever bytes its coder gives for the record, replies
  \<open>found = false\<close>.
\<close>

theorem variants_oversize_key_counterexample:
  "tree empty_server = db_tree empty_dbServer
   \<and> script (logFile empty_server) = [] \<and> db_script (db empty_dbServer) = []
   \<and> run empty_server [DeleteRequest (replicate 1100 (CHR ''k''))]
       = (empty_server, [Inl (WalPayloadTooLarge 1124)])
   \<and> (\<forall>payload. db_run (\<lambda>cmd. Inr payload) empty_dbServer [DeleteRequest (replicate 1100 (CHR ''k''))]
       = (empty_dbServer\<lparr>db := \<lparr>rows = [payload], db_script = []\<rparr>\<rparr>, [Inr (DeleteReply False)]))"
proof -
  have a: "run empty_server [DeleteRequest (replicate 1100 (CHR ''k''))]
       = (empty_server, [Inl (WalPayloadTooLarge 1124)])"
    by (simp add: serve_def Delete_at_end [OF at_end_empty_server] Let_def length_Marshal_oversize
        maxWALFrameSize_def)
  have b: "db_run (\<lambda>cmd. Inr payload) empty_dbServer [DeleteRequest (replicate 1100 (CHR ''k''))]
       = (empty_dbServer\<lparr>db := \<lparr>rows = [payload], db_script = []\<rparr>\<rparr>, [Inr (DeleteReply False)])"
    for payload
    using db_appendLog_healthy [of empty_dbServer
        "\<lparr>pbOp = OP_DELETE, pbKey = replicate 1100 (CHR ''k''), pbValue = []\<rparr>"
        "\<lambda>cmd. Inr payload" payload]
    by (simp add: db_serve_def db_Delete_def Let_def db_isValidOp_def db_applyCommand_def
        empty_dbServer_def btree_New_def)
  show ?thesis using a b by (simp add: empty_server_def empty_dbServer_def)
qed

section \<open>The codec of the log\<close>

text \<open>
  C5, as amended. \<open>appendWAL\<close> encodes a record with a valid opcode as the frame of its
  JSON payload when the payload is within \<open>maxWALFrameSize\<close>, and refuses it, writing
  nothing, when it is larger. For a record that is encoded, decoding the payload, and
  replaying the frame, gives the record with its key and its value coerced to valid UTF-8:
  every byte that does not begin a well-formed sequence replaced by U+FFFD. So a record
  whose key and value are valid UTF-8 (the empty string included) is decoded as it was.
  A payload whose opcode is not \<open>put\<close>, \<open>swap\<close> or \<open>delete\<close> is rejected, by the decoder
  and by the replay of its frame, and every record that is decoded has one of the three.
\<close>

theorem codec_roundtrip_utf8:
  "(script (logFile s) = [] \<and> offset (logFile s) = length (data (logFile s))
      \<and> isValidOp (Op cmd) \<and> length (json_Marshal cmd) \<le> maxWALFrameSize
      \<longrightarrow> appendWAL s cmd = (appended s cmd, None))
   \<and> (isValidOp (Op cmd) \<and> length (json_Marshal cmd) > maxWALFrameSize
      \<longrightarrow> appendWAL s cmd = (s, Some (WalPayloadTooLarge (length (json_Marshal cmd)))))
   \<and> (isValidOp (Op cmd) \<and> length (json_Marshal cmd) \<le> maxWALFrameSize
      \<longrightarrow> decodeCommand (json_Marshal cmd)
            = Inr \<lparr>Op = Op cmd, Key = coerced (Key cmd), Value = coerced (Value cmd)\<rparr>
        \<and> wal_records (frame cmd)
            = ([\<lparr>Op = Op cmd, Key = coerced (Key cmd), Value = coerced (Value cmd)\<rparr>], [], None))
   \<and> (isValidOp (Op cmd) \<and> length (json_Marshal cmd) \<le> maxWALFrameSize
      \<and> ValidString (Key cmd) \<and> ValidString (Value cmd)
      \<longrightarrow> decodeCommand (json_Marshal cmd) = Inr cmd
        \<and> wal_records (frame cmd) = ([cmd], [], None))
   \<and> (json_Unmarshal payload = Inr c \<and> \<not> isValidOp (Op c)
      \<longrightarrow> decodeCommand payload = Inl (UnknownWalOp (Op c)))
   \<and> (json_Unmarshal payload = Inr c \<and> \<not> isValidOp (Op c) \<and> length payload \<le> maxWALFrameSize
      \<longrightarrow> wal_records (PutUint32 (uint32 (length payload)) @ payload)
            = ([], PutUint32 (uint32 (length payload)) @ payload, Some (UnknownWalOp (Op c))))
   \<and> (decodeCommand payload = Inr c \<longrightarrow> isValidOp (Op c))"
proof -
  let ?r = "\<lparr>Op = Op cmd, Key = coerced (Key cmd), Value = coerced (Value cmd)\<rparr>"
  have enc: "appendWAL s cmd = (appended s cmd, None)"
    if "script (logFile s) = []" "offset (logFile s) = length (data (logFile s))"
      "isValidOp (Op cmd)" "length (json_Marshal cmd) \<le> maxWALFrameSize"
    using that appendWAL_healthy [of s cmd] by (simp add: appended_def)
  have big: "appendWAL s cmd = (s, Some (WalPayloadTooLarge (length (json_Marshal cmd))))"
    if "isValidOp (Op cmd)" "length (json_Marshal cmd) > maxWALFrameSize"
    using that by (simp add: appendWAL_def)
  have fr: "wal_records (frame cmd) = ([?r], [], None)"
    if "isValidOp (Op cmd)" "length (json_Marshal cmd) \<le> maxWALFrameSize"
    using wal_records_frame_coerced [OF that, of "[]"] by (simp add: wal_records_Nil)
  have same: "?r = cmd" if "ValidString (Key cmd)" "ValidString (Value cmd)"
    using that by (simp add: coerced_valid)
  have rej: "decodeCommand payload = Inl (UnknownWalOp (Op c))"
    if "json_Unmarshal payload = Inr c" "\<not> isValidOp (Op c)"
    using that by (simp add: decodeCommand_def)
  have rejf: "wal_records (PutUint32 (uint32 (length payload)) @ payload)
      = ([], PutUint32 (uint32 (length payload)) @ payload, Some (UnknownWalOp (Op c)))"
    if "json_Unmarshal payload = Inr c" "\<not> isValidOp (Op c)" "length payload \<le> maxWALFrameSize"
    using wal_records_unknown_op [OF that(3) rej [OF that(1,2)], of "[]"] by simp
  have ops: "decodeCommand payload = Inr c \<longrightarrow> isValidOp (Op c)"
    by (auto simp: decodeCommand_def split: sum.splits if_splits)
  show ?thesis
    using enc big fr same rej rejf ops decodeCommand_Marshal_coerced [of cmd] by metis
qed


lemmas utf8_eval = ValidString.simps(2) DecodeRune.simps(2) first_size_def accept_lo_def
  accept_hi_def RuneError_def

lemmas unmarshal_eval = json_Unmarshal_def skip_space_def is_space_def starts_def
  unquote.simps(2) field_of_def set_field_def zero_walCommand_def

text \<open>A key of two bytes that are one rune (U+00E9) with an empty value, a key that is
  not valid UTF-8, a key too long for a frame, and a payload that names an unknown
  opcode.\<close>

theorem codec_roundtrip_utf8_witness:
  \<open>appendWAL empty_server \<lparr>Op = ''put'', Key = [CHR 0xC3, CHR 0xA9], Value = []\<rparr>
     = (appended empty_server \<lparr>Op = ''put'', Key = [CHR 0xC3, CHR 0xA9], Value = []\<rparr>, None)
   \<and> decodeCommand (json_Marshal \<lparr>Op = ''put'', Key = [CHR 0xC3, CHR 0xA9], Value = []\<rparr>)
     = Inr \<lparr>Op = ''put'', Key = [CHR 0xC3, CHR 0xA9], Value = []\<rparr>
   \<and> wal_records (frame \<lparr>Op = ''put'', Key = [CHR 0xC3, CHR 0xA9], Value = []\<rparr>)
     = ([\<lparr>Op = ''put'', Key = [CHR 0xC3, CHR 0xA9], Value = []\<rparr>], [], None)
   \<and> wal_records (frame \<lparr>Op = ''put'', Key = [CHR 0xFF], Value = ''1''\<rparr>)
     = ([\<lparr>Op = ''put'', Key = [CHR 0xEF, CHR 0xBF, CHR 0xBD], Value = ''1''\<rparr>], [], None)
   \<and> appendWAL empty_server \<lparr>Op = ''delete'', Key = replicate 1100 (CHR ''k''), Value = []\<rparr>
     = (empty_server, Some (WalPayloadTooLarge 1124))
   \<and> decodeCommand ''{"op":"nop","key":"a"}'' = Inl (UnknownWalOp ''nop'')
   \<and> wal_records (PutUint32 (uint32 22) @ ''{"op":"nop","key":"a"}'')
     = ([], PutUint32 (uint32 22) @ ''{"op":"nop","key":"a"}'', Some (UnknownWalOp ''nop''))
   \<and> isValidOp (Op \<lparr>Op = ''put'', Key = [CHR 0xC3, CHR 0xA9], Value = []\<rparr>)\<close>
proof -
  let ?c1 = "\<lparr>Op = ''put'', Key = [CHR 0xC3, CHR 0xA9], Value = []\<rparr>"
  let ?c2 = "\<lparr>Op = ''put'', Key = [CHR 0xFF], Value = ''1''\<rparr>"
  let ?c3 = "\<lparr>Op = ''delete'', Key = replicate 1100 (CHR ''k''), Value = []\<rparr>"
  let ?p = \<open>''{"op":"nop","key":"a"}''\<close>
  let ?n = "\<lparr>Op = ''nop'', Key = ''a'', Value = []\<rparr>"
  have s: "script (logFile empty_server) = []"
    "offset (logFile empty_server) = length (data (logFile empty_server))"
    by (simp_all add: empty_server_def)
  have v: "isValidOp (Op ?c1)" "isValidOp (Op ?c2)" "isValidOp (Op ?c3)"
    "ValidString (Key ?c1)" "ValidString (Value ?c1)"
    by (simp_all add: isValidOp_def utf8_eval)
  have l: "length (json_Marshal ?c1) \<le> maxWALFrameSize" "length (json_Marshal ?c2) \<le> maxWALFrameSize"
    "length ?p \<le> maxWALFrameSize"
    by (simp_all add: json_eval DecodeRune.simps(2) first_size_def accept_lo_def accept_hi_def
        RuneError_def maxWALFrameSize_def)
  have big: "length (json_Marshal ?c3) > maxWALFrameSize"
    by (simp add: length_Marshal_oversize maxWALFrameSize_def)
  have u: "json_Unmarshal ?p = Inr ?n" "\<not> isValidOp (Op ?n)"
    by (simp_all add: unmarshal_eval isValidOp_def)
  have c: "coerced (Key ?c2) = [CHR 0xEF, CHR 0xBF, CHR 0xBD]" "coerced (Value ?c2) = ''1''"
    by (simp_all add: coerced.simps(2) DecodeRune.simps(2) RuneError_def)
  note t1 = codec_roundtrip_utf8 [where s = empty_server and cmd = ?c1
      and payload = "json_Marshal ?c1" and c = ?c1]
  note t2 = codec_roundtrip_utf8 [where s = empty_server and cmd = ?c2 and payload = ?p and c = ?n]
  note t3 = codec_roundtrip_utf8 [where s = empty_server and cmd = ?c3 and payload = ?p and c = ?n]
  have a1: "appendWAL empty_server ?c1 = (appended empty_server ?c1, None)"
    "decodeCommand (json_Marshal ?c1) = Inr ?c1" "wal_records (frame ?c1) = ([?c1], [], None)"
    using t1 s v l by blast+
  then have a2: "isValidOp (Op ?c1)" using t1 by blast
  have a3: "wal_records (frame ?c2)
      = ([\<lparr>Op = ''put'', Key = [CHR 0xEF, CHR 0xBF, CHR 0xBD], Value = ''1''\<rparr>], [], None)"
    using t2 v l c by simp
  have len: "length ?p = 22" by simp
  have l22: "(22::nat) \<le> maxWALFrameSize" by (simp add: maxWALFrameSize_def)
  have a4: "decodeCommand ?p = Inl (UnknownWalOp ''nop'')"
    "wal_records (PutUint32 (uint32 22) @ ?p)
      = ([], PutUint32 (uint32 22) @ ?p, Some (UnknownWalOp ''nop''))"
    using t2 [unfolded len] u l22 by simp_all
  have a5: "appendWAL empty_server ?c3 = (empty_server, Some (WalPayloadTooLarge 1124))"
    using t3 v big by (simp add: length_Marshal_oversize)
  show ?thesis using a1 a2 a3 a4 a5 by simp
qed

lemma non_utf8_key_read_back:
  "decodeCommand (json_Marshal \<lparr>Op = ''put'', Key = [CHR 0xFF], Value = ''1''\<rparr>)
     = Inr \<lparr>Op = ''put'', Key = [CHR 0xEF, CHR 0xBF, CHR 0xBD], Value = ''1''\<rparr>"
proof -
  have m: \<open>json_Marshal \<lparr>Op = ''put'', Key = [CHR 0xFF], Value = ''1''\<rparr>
      = ''{"op":"put","key":"'' @ BSL # ''ufffd","value":"1"}''\<close>
    by (simp add: json_eval DecodeRune.simps(2) RuneError_def)
  show ?thesis unfolding m
    by (simp add: decodeCommand_def unmarshal_eval isValidOp_def getu4_def hexval_def
        IsSurrogate_def EncodeRune_def MaxRune_def bytes_eval)
qed

text \<open>
  C5 as stated fails for a key that is not valid UTF-8: \<open>json.Marshal\<close> writes the byte
  \<open>0xFF\<close> as the escape of U+FFFD, and the record read back has the three bytes of that
  rune for its key.
\<close>

theorem codec_non_utf8_counterexample:
  "isValidOp (Op \<lparr>Op = ''put'', Key = [CHR 0xFF], Value = ''1''\<rparr>)
   \<and> decodeCommand (json_Marshal \<lparr>Op = ''put'', Key = [CHR 0xFF], Value = ''1''\<rparr>)
     = Inr \<lparr>Op = ''put'', Key = [CHR 0xEF, CHR 0xBF, CHR 0xBD], Value = ''1''\<rparr>
   \<and> decodeCommand (json_Marshal \<lparr>Op = ''put'', Key = [CHR 0xFF], Value = ''1''\<rparr>)
     \<noteq> Inr \<lparr>Op = ''put'', Key = [CHR 0xFF], Value = ''1''\<rparr>"
  by (simp add: non_utf8_key_read_back isValidOp_def)

section \<open>Replay of the log\<close>

lemma replayWAL_records:
  assumes "script (logFile s) = []" "wal_records (data (logFile s)) = (cs, unread, e)"
  shows "\<exists>pos. replayWAL s =
     ((foldl applyCommand s cs)\<lparr>logFile := (logFile s)\<lparr>offset := pos\<rparr>\<rparr>, e)"
proof -
  let ?f0 = "(logFile s)\<lparr>offset := 0\<rparr>"
  let ?s0 = "s\<lparr>logFile := ?f0\<rparr>"
  have sk: "Seek (logFile s) 0 SeekStart = (?f0, None)"
    using assms(1) by (simp add: Seek_def next_outcome_healthy)
  have "data (logFile s) = drop (offset (logFile ?s0)) (data (logFile ?s0))" by simp
  moreover have "script (logFile ?s0) = []" using assms(1) by simp
  ultimately obtain pos where "replayWAL_loop ?s0 =
      ((foldl applyCommand ?s0 cs)\<lparr>logFile := (logFile ?s0)\<lparr>offset := pos\<rparr>\<rparr>, e)"
    using replayWAL_loop_records [of "data (logFile s)" ?s0 cs unread e] assms(2) by blast
  then have "replayWAL s = ((foldl applyCommand s cs)\<lparr>logFile := (logFile s)\<lparr>offset := pos\<rparr>\<rparr>, e)"
    by (simp add: replayWAL_def sk foldl_applyCommand_logFile)
  then show ?thesis by blast
qed

text \<open>The server \<open>newKVServer\<close> builds from a log whose replay decodes the given records.\<close>

definition recovered :: "File \<Rightarrow> walCommand list \<Rightarrow> kvServer" where
  "recovered disk cs =
     (foldl applyCommand \<lparr>tree = btree_New, logFile = disk\<rparr> cs)
       \<lparr>logFile := disk\<lparr>offset := length (data disk)\<rparr>\<rparr>"

lemma newKVServer_records:
  assumes "script disk = []" "wal_records (data disk) = (cs, unread, e)"
  shows "newKVServer disk = (case e of Some err \<Rightarrow> Inl err | None \<Rightarrow> Inr (recovered disk cs))"
proof -
  let ?s = "\<lparr>tree = btree_New, logFile = disk\<lparr>offset := 0\<rparr>\<rparr>"
  obtain pos where r: "replayWAL ?s =
      ((foldl applyCommand ?s cs)\<lparr>logFile := (logFile ?s)\<lparr>offset := pos\<rparr>\<rparr>, e)"
    using replayWAL_records [of ?s cs unread e] assms by auto
  have f: "foldl applyCommand ?s cs
      = (foldl applyCommand \<lparr>tree = btree_New, logFile = disk\<rparr> cs)\<lparr>logFile := disk\<lparr>offset := 0\<rparr>\<rparr>"
    using foldl_applyCommand_logFile
      [where s = "\<lparr>tree = btree_New, logFile = disk\<rparr>" and f = "disk\<lparr>offset := 0\<rparr>" and cs = cs]
    by simp
  show ?thesis
    using assms(1)
    by (cases e)
      (simp_all add: newKVServer_def next_outcome_healthy r f Seek_def recovered_def)
qed

lemma tree_recovered:
  "tree (recovered disk cs) = tree (foldl applyCommand \<lparr>tree = btree_New, logFile = disk\<rparr> cs)"
  by (simp add: recovered_def)

lemma wal_records_appended:
  assumes "wal_records (data (logFile s)) = (cs, [], None)" "isValidOp (Op cmd)" "utf8_cmd cmd"
    "length (json_Marshal cmd) \<le> maxWALFrameSize"
  shows "wal_records (data (logFile (appended s cmd))) = (cs @ [cmd], [], None)"
proof -
  have "wal_records (frame cmd @ []) = ([cmd], [], None)"
    using wal_records_frame [OF assms(2,3,4), of "[]"] by (simp add: wal_records_Nil)
  then show ?thesis
    using wal_records_append [OF assms(1), of "frame cmd"] by (simp add: appended_def)
qed

text \<open>
  A sequence of calls of \<open>appendWAL\<close>, each on the server the call before left, whether
  that call failed or not, as the handlers make them; with the server returned are the
  records of the calls that returned no error, in the order of the calls.
\<close>

fun appendEach :: "kvServer \<Rightarrow> walCommand list \<Rightarrow> kvServer \<times> walCommand list" where
  "appendEach s [] = (s, [])"
| "appendEach s (cmd # cmds) =
     (case appendWAL s cmd of
        (s1, Some err) \<Rightarrow> appendEach s1 cmds
      | (s1, None) \<Rightarrow> (case appendEach s1 cmds of (s2, acked) \<Rightarrow> (s2, cmd # acked)))"

lemma appendEach_records:
  assumes "at_end s" "wal_records (data (logFile s)) = (cs, [], None)" "list_all utf8_cmd cmds"
  shows "wal_records (data (logFile (fst (appendEach s cmds))))
      = (cs @ snd (appendEach s cmds), [], None)
    \<and> at_end (fst (appendEach s cmds))
    \<and> snd (appendEach s cmds)
      = filter (\<lambda>cmd. isValidOp (Op cmd) \<and> length (json_Marshal cmd) \<le> maxWALFrameSize) cmds"
  using assms
proof (induction cmds arbitrary: s cs)
  case Nil
  then show ?case by simp
next
  case (Cons cmd cmds)
  have u: "utf8_cmd cmd" "list_all utf8_cmd cmds" using Cons.prems(3) by simp_all
  show ?case
  proof (cases "isValidOp (Op cmd) \<and> length (json_Marshal cmd) \<le> maxWALFrameSize")
    case True
    then have a: "appendWAL s cmd = (appended s cmd, None)"
      using appendWAL_at_end [OF Cons.prems(1), of cmd] by simp
    have w: "wal_records (data (logFile (appended s cmd))) = (cs @ [cmd], [], None)"
      using wal_records_appended [OF Cons.prems(2) _ u(1)] True by simp
    note IH = Cons.IH [OF at_end_appended [OF Cons.prems(1)] w u(2)]
    show ?thesis using IH True by (simp add: a split_beta)
  next
    case False
    have h: "script (logFile s) = []" "offset (logFile s) = length (data (logFile s))"
      using Cons.prems(1) by (simp_all add: at_end_def)
    have "\<exists>err. appendWAL s cmd = (s, Some err)"
      using False by (auto simp: appendWAL_healthy [OF h])
    then obtain err where a: "appendWAL s cmd = (s, Some err)" by blast
    note IH = Cons.IH [OF Cons.prems(1,2) u(2)]
    show ?thesis using IH False by (simp add: a)
  qed
qed

text \<open>
  C2, as amended. On a device where no write or sync fails, a sequence of calls of
  \<open>appendWAL\<close> on a log that was empty, with records whose keys and values are valid
  UTF-8: a replay of the log decodes exactly the records of the calls that succeeded, in
  the order of the calls, each once, and \<open>replayWAL\<close> applies exactly them, in this
  order, without an error. The calls that succeed are those whose record has a valid
  opcode and a payload within the frame bound; the others leave the log as it was.
\<close>

theorem replay_yields_appended_records:
  "script (logFile s) = [] \<and> data (logFile s) = [] \<and> offset (logFile s) = 0
   \<and> list_all utf8_cmd cmds
   \<Longrightarrow> wal_records (data (logFile (fst (appendEach s cmds)))) = (snd (appendEach s cmds), [], None)
     \<and> (\<exists>pos. replayWAL (fst (appendEach s cmds)) =
          ((foldl applyCommand (fst (appendEach s cmds)) (snd (appendEach s cmds)))
             \<lparr>logFile := (logFile (fst (appendEach s cmds)))\<lparr>offset := pos\<rparr>\<rparr>, None))
     \<and> snd (appendEach s cmds)
       = filter (\<lambda>cmd. isValidOp (Op cmd) \<and> length (json_Marshal cmd) \<le> maxWALFrameSize) cmds"
proof -
  assume a: "script (logFile s) = [] \<and> data (logFile s) = [] \<and> offset (logFile s) = 0
    \<and> list_all utf8_cmd cmds"
  then have e: "at_end s" and w: "wal_records (data (logFile s)) = ([], [], None)"
    and u: "list_all utf8_cmd cmds"
    by (simp_all add: at_end_def wal_records_Nil)
  note r = appendEach_records [OF e w u]
  have r1: "wal_records (data (logFile (fst (appendEach s cmds)))) = (snd (appendEach s cmds), [], None)"
    using r by simp
  have r2: "script (logFile (fst (appendEach s cmds))) = []" using r by (simp add: at_end_def)
  from replayWAL_records [OF r2 r1] r r1 show ?thesis by simp
qed

text \<open>Three records; the second has no valid opcode and is refused.\<close>

definition two_records :: "walCommand list" where
  "two_records = [\<lparr>Op = ''put'', Key = [CHR 0xC3, CHR 0xA9], Value = ''1''\<rparr>,
     \<lparr>Op = ''nop'', Key = ''a'', Value = []\<rparr>,
     \<lparr>Op = ''delete'', Key = [CHR 0xC3, CHR 0xA9], Value = []\<rparr>]"

theorem replay_yields_appended_records_witness:
  "snd (appendEach empty_server two_records)
     = [\<lparr>Op = ''put'', Key = [CHR 0xC3, CHR 0xA9], Value = ''1''\<rparr>,
        \<lparr>Op = ''delete'', Key = [CHR 0xC3, CHR 0xA9], Value = []\<rparr>]
   \<and> wal_records (data (logFile (fst (appendEach empty_server two_records))))
     = ([\<lparr>Op = ''put'', Key = [CHR 0xC3, CHR 0xA9], Value = ''1''\<rparr>,
         \<lparr>Op = ''delete'', Key = [CHR 0xC3, CHR 0xA9], Value = []\<rparr>], [], None)"
proof -
  have h: "script (logFile empty_server) = [] \<and> data (logFile empty_server) = []
    \<and> offset (logFile empty_server) = 0 \<and> list_all utf8_cmd two_records"
    by (simp add: empty_server_def two_records_def utf8_cmd_def utf8_eval)
  have f: "filter (\<lambda>cmd. isValidOp (Op cmd) \<and> length (json_Marshal cmd) \<le> maxWALFrameSize)
      two_records
    = [\<lparr>Op = ''put'', Key = [CHR 0xC3, CHR 0xA9], Value = ''1''\<rparr>,
       \<lparr>Op = ''delete'', Key = [CHR 0xC3, CHR 0xA9], Value = []\<rparr>]"
    by (simp add: two_records_def isValidOp_def json_eval DecodeRune.simps(2) first_size_def
        accept_lo_def accept_hi_def RuneError_def maxWALFrameSize_def)
  from replay_yields_appended_records [OF h] show ?thesis unfolding f by simp
qed


text \<open>A server on an empty log whose device carries out the two writes of the coming
  append and fails its sync.\<close>

definition sync_failing_server :: kvServer where
  "sync_failing_server = \<lparr>tree = btree_New,
     logFile = \<lparr>data = [], offset = 0, script = [Succeeds, Succeeds, Fails 0]\<rparr>\<rparr>"

lemma appendWAL_sync_fails:
  assumes "script (logFile s) = [Succeeds, Succeeds, Fails n]"
    "offset (logFile s) = length (data (logFile s))"
    "isValidOp (Op cmd)" "length (json_Marshal cmd) \<le> maxWALFrameSize"
  shows "appendWAL s cmd =
     (s\<lparr>logFile := (logFile s)\<lparr>data := data (logFile s) @ frame cmd,
          offset := length (data (logFile s) @ frame cmd), script := []\<rparr>\<rparr>,
      Some (SyncWal DeviceError))"
proof -
  have p: "PutUint32 v \<noteq> []" for v by (simp add: PutUint32_def)
  have m: "json_Marshal cmd \<noteq> []" by (simp add: json_Marshal_def)
  show ?thesis using assms p m
    by (simp add: appendWAL_def Let_def writeFull_eq next_outcome_def store_def Sync_def
        frame_def)
qed

lemma put_a_1:
  "isValidOp (Op \<lparr>Op = ''put'', Key = ''a'', Value = ''1''\<rparr>)"
  "utf8_cmd \<lparr>Op = ''put'', Key = ''a'', Value = ''1''\<rparr>"
  "length (json_Marshal \<lparr>Op = ''put'', Key = ''a'', Value = ''1''\<rparr>) \<le> maxWALFrameSize"
  by (simp_all add: isValidOp_def utf8_cmd_def ValidString_ascii json_eval maxWALFrameSize_def)

lemma appendWAL_sync_failing_server:
  "appendWAL sync_failing_server \<lparr>Op = ''put'', Key = ''a'', Value = ''1''\<rparr> =
     (\<lparr>tree = [], logFile = \<lparr>data = frame \<lparr>Op = ''put'', Key = ''a'', Value = ''1''\<rparr>,
         offset = 38, script = []\<rparr>\<rparr>,
      Some (SyncWal DeviceError))"
proof -
  have l: "length (frame \<lparr>Op = ''put'', Key = ''a'', Value = ''1''\<rparr>) = 38"
    by (simp add: frame_def length_PutUint32 json_eval)
  show ?thesis
    using appendWAL_sync_fails [of sync_failing_server 0, OF _ _ put_a_1(1,3)]
    by (simp add: sync_failing_server_def btree_New_def l)
qed

lemma wal_records_put_a_1:
  "wal_records (frame \<lparr>Op = ''put'', Key = ''a'', Value = ''1''\<rparr>)
     = ([\<lparr>Op = ''put'', Key = ''a'', Value = ''1''\<rparr>], [], None)"
  using wal_records_frame [OF put_a_1, of "[]"] by (simp add: wal_records_Nil)

text \<open>The log after a payload write that stopped after two bytes and an append that
  succeeded: the frame of the record follows the six bytes the failed append left.\<close>

lemma appendWAL_after_short_write:
  "appendWAL (fst (appendWAL failing_server \<lparr>Op = ''put'', Key = ''a'', Value = ''2''\<rparr>))
       \<lparr>Op = ''put'', Key = ''b'', Value = ''2''\<rparr>
     = (failing_server\<lparr>logFile :=
          \<lparr>data = [CHR 0x00, CHR 0x00, CHR 0x00, CHR 0x22, CHR ''{'', DQ]
                    @ frame \<lparr>Op = ''put'', Key = ''b'', Value = ''2''\<rparr>,
            offset = 44, script = []\<rparr>\<rparr>, None)"
proof -
  let ?s1 = "failing_server\<lparr>logFile :=
        \<lparr>data = [CHR 0x00, CHR 0x00, CHR 0x00, CHR 0x22, CHR ''{'', DQ], offset = 6, script = []\<rparr>\<rparr>"
  have e: "at_end ?s1" by (simp add: at_end_def)
  have l: "length (json_Marshal \<lparr>Op = ''put'', Key = ''b'', Value = ''2''\<rparr>) = 34"
    by (simp add: json_eval)
  show ?thesis
    by (simp add: appendWAL_failing_server appendWAL_at_end [OF e] isValidOp_def l
        maxWALFrameSize_def appended_def frame_def length_PutUint32)
qed

lemma wal_records_after_short_write:
  "wal_records ([CHR 0x00, CHR 0x00, CHR 0x00, CHR 0x22, CHR ''{'', DQ]
       @ frame \<lparr>Op = ''put'', Key = ''b'', Value = ''2''\<rparr>)
     = ([], [CHR 0x00, CHR 0x00, CHR 0x00, CHR 0x22, CHR ''{'', DQ]
              @ frame \<lparr>Op = ''put'', Key = ''b'', Value = ''2''\<rparr>,
        Some (DecodeWalCommand JSONError))"
proof -
  let ?p = "[CHR ''{'', DQ, CHR 0x00, CHR 0x00, CHR 0x00, CHR 0x22]
      @ take 28 (json_Marshal \<lparr>Op = ''put'', Key = ''b'', Value = ''2''\<rparr>)"
  let ?bs = "drop 28 (json_Marshal \<lparr>Op = ''put'', Key = ''b'', Value = ''2''\<rparr>)"
  have len: "length ?p = 34" by (simp add: json_eval)
  have d: "decodeCommand ?p = Inl (DecodeWalCommand JSONError)"
    by (simp add: json_eval decodeCommand_def unmarshal_eval)
  have h: "PutUint32 (uint32 34) = [CHR 0x00, CHR 0x00, CHR 0x00, CHR 0x22]"
    by (simp add: bytes_eval)
  have eq: "[CHR 0x00, CHR 0x00, CHR 0x00, CHR 0x22, CHR ''{'', DQ]
       @ frame \<lparr>Op = ''put'', Key = ''b'', Value = ''2''\<rparr>
     = PutUint32 (uint32 (length ?p)) @ ?p @ ?bs"
    unfolding len h by (simp add: frame_def json_eval bytes_eval)
  have m: "length ?p \<le> maxWALFrameSize" unfolding len by (simp add: maxWALFrameSize_def)
  show ?thesis unfolding eq by (rule wal_records_unknown_op [OF m d])
qed


text \<open>
  C2 as stated fails in three ways. A record whose key is not valid UTF-8 is appended, and
  the replay decodes a record with another key. When the device cuts a write short, the
  bytes of the failed append stay in the log, the next append succeeds behind them, and
  the replay stops with an error before it reaches the acknowledged record. When the
  device fails a sync, the append fails, and the replay yields its record.
\<close>

theorem replay_differs_counterexample:
  "snd (appendEach empty_server [\<lparr>Op = ''put'', Key = [CHR 0xFF], Value = ''1''\<rparr>])
     = [\<lparr>Op = ''put'', Key = [CHR 0xFF], Value = ''1''\<rparr>]
   \<and> wal_records (data (logFile (fst (appendEach empty_server
        [\<lparr>Op = ''put'', Key = [CHR 0xFF], Value = ''1''\<rparr>]))))
     = ([\<lparr>Op = ''put'', Key = [CHR 0xEF, CHR 0xBF, CHR 0xBD], Value = ''1''\<rparr>], [], None)
   \<and> data (logFile failing_server) = []
   \<and> snd (appendEach failing_server [\<lparr>Op = ''put'', Key = ''a'', Value = ''2''\<rparr>,
        \<lparr>Op = ''put'', Key = ''b'', Value = ''2''\<rparr>])
     = [\<lparr>Op = ''put'', Key = ''b'', Value = ''2''\<rparr>]
   \<and> fst (wal_records (data (logFile (fst (appendEach failing_server
        [\<lparr>Op = ''put'', Key = ''a'', Value = ''2''\<rparr>,
         \<lparr>Op = ''put'', Key = ''b'', Value = ''2''\<rparr>]))))) = []
   \<and> snd (snd (wal_records (data (logFile (fst (appendEach failing_server
        [\<lparr>Op = ''put'', Key = ''a'', Value = ''2''\<rparr>,
         \<lparr>Op = ''put'', Key = ''b'', Value = ''2''\<rparr>])))))) = Some (DecodeWalCommand JSONError)
   \<and> data (logFile sync_failing_server) = []
   \<and> snd (appendEach sync_failing_server [\<lparr>Op = ''put'', Key = ''a'', Value = ''1''\<rparr>]) = []
   \<and> wal_records (data (logFile (fst (appendEach sync_failing_server
        [\<lparr>Op = ''put'', Key = ''a'', Value = ''1''\<rparr>]))))
     = ([\<lparr>Op = ''put'', Key = ''a'', Value = ''1''\<rparr>], [], None)"
proof -
  let ?c = "\<lparr>Op = ''put'', Key = [CHR 0xFF], Value = ''1''\<rparr>"
  have l: "length (json_Marshal ?c) \<le> maxWALFrameSize"
    by (simp add: json_eval DecodeRune.simps(2) RuneError_def maxWALFrameSize_def)
  have v: "isValidOp (Op ?c)" by (simp add: isValidOp_def)
  have c: "coerced [CHR 0xFF] = [CHR 0xEF, CHR 0xBF, CHR 0xBD]" "coerced ''1'' = ''1''"
    by (simp_all add: coerced.simps(2) DecodeRune.simps(2) RuneError_def)
  have a1: "appendEach empty_server [?c] = (appended empty_server ?c, [?c])"
    using l by (simp add: appendWAL_at_end [OF at_end_empty_server] isValidOp_def)
  have a2: "wal_records (data (logFile (appended empty_server ?c)))
      = ([\<lparr>Op = ''put'', Key = [CHR 0xEF, CHR 0xBF, CHR 0xBD], Value = ''1''\<rparr>], [], None)"
    using wal_records_frame_coerced [OF v l, of "[]"]
    by (simp add: appended_def empty_server_def wal_records_Nil c)
  let ?a2 = "\<lparr>Op = ''put'', Key = ''a'', Value = ''2''\<rparr>"
  let ?b2 = "\<lparr>Op = ''put'', Key = ''b'', Value = ''2''\<rparr>"
  have b1: "appendEach failing_server [?a2, ?b2]
      = (failing_server\<lparr>logFile :=
          \<lparr>data = [CHR 0x00, CHR 0x00, CHR 0x00, CHR 0x22, CHR ''{'', DQ] @ frame ?b2,
            offset = 44, script = []\<rparr>\<rparr>, [?b2])"
    using appendWAL_after_short_write by (simp add: appendWAL_failing_server)
  have c1: "appendEach sync_failing_server [\<lparr>Op = ''put'', Key = ''a'', Value = ''1''\<rparr>]
      = (\<lparr>tree = [], logFile = \<lparr>data = frame \<lparr>Op = ''put'', Key = ''a'', Value = ''1''\<rparr>,
           offset = 38, script = []\<rparr>\<rparr>, [])"
    by (simp add: appendWAL_sync_failing_server)
  show ?thesis
    unfolding a1 b1 c1
    using a2 wal_records_after_short_write wal_records_put_a_1
    by (simp add: failing_server_def sync_failing_server_def)
qed

section \<open>The index and the log\<close>

text \<open>The key and the value of a request's record are valid UTF-8, as the transport
  delivers them.\<close>

definition utf8_request :: "request \<Rightarrow> bool" where
  "utf8_request req = (case record_of req of None \<Rightarrow> True | Some cmd \<Rightarrow> utf8_cmd cmd)"

text \<open>The records of the mutations that were acknowledged: answered with a reply and not
  with an error.\<close>

fun acknowledged :: "request list \<Rightarrow> (error + reply) list \<Rightarrow> walCommand list" where
  "acknowledged (req # reqs) (out # outs) =
     (case record_of req of
        None \<Rightarrow> acknowledged reqs outs
      | Some cmd \<Rightarrow> if isl out then acknowledged reqs outs else cmd # acknowledged reqs outs)"
| "acknowledged reqs outs = []"

lemma tree_foldl_applyCommand:
  "tree s = tree s' \<Longrightarrow> tree (foldl applyCommand s cs) = tree (foldl applyCommand s' cs)"
proof (induction cs arbitrary: s s')
  case Nil
  then show ?case by simp
next
  case (Cons c cs)
  have "tree (applyCommand s c) = tree (applyCommand s' c)"
    using Cons.prems by (simp add: applyCommand_def)
  from Cons.IH [OF this] show ?case by simp
qed

lemma run_records:
  assumes "at_end s" "wal_records (data (logFile s)) = (cs, [], None)"
    "list_all utf8_request reqs" "run s reqs = (s', outs)"
  shows "at_end s' \<and> wal_records (data (logFile s')) = (cs @ acknowledged reqs outs, [], None)
    \<and> tree s' = tree (foldl applyCommand s (acknowledged reqs outs))"
  using assms
proof (induction reqs arbitrary: s cs outs)
  case Nil
  then show ?case by auto
next
  case (Cons req reqs)
  obtain s1 out where sv: "serve s req = (s1, out)" by (cases "serve s req")
  obtain rest where rn: "run s1 reqs = (s', rest)" and outs: "outs = out # rest"
    using Cons.prems(4) sv by (auto split: prod.splits)
  note st = serve_at_end [OF Cons.prems(1) sv]
  have u: "list_all utf8_request reqs" using Cons.prems(3) by simp
  show ?case
  proof (cases "record_of req")
    case None
    then have "s1 = s" "\<not> isl out" using st by simp_all
    then show ?thesis
      using Cons.IH [OF Cons.prems(1,2) u rn [unfolded \<open>s1 = s\<close>]] None outs
      by simp
  next
    case (Some cmd)
    show ?thesis
    proof (cases "length (json_Marshal cmd) \<le> maxWALFrameSize")
      case False
      then have "s1 = s" "isl out" using st Some by simp_all
      then show ?thesis
        using Cons.IH [OF Cons.prems(1,2) u rn [unfolded \<open>s1 = s\<close>]] Some outs
        by simp
    next
      case True
      then have s1: "s1 = applyCommand (appended s cmd) cmd" and ok: "\<not> isl out"
        using st Some by simp_all
      have uc: "utf8_cmd cmd" using Cons.prems(3) Some by (simp add: utf8_request_def)
      have e1: "at_end s1" by (simp add: s1 at_end_applyCommand at_end_appended [OF Cons.prems(1)])
      have w1: "wal_records (data (logFile s1)) = (cs @ [cmd], [], None)"
        using wal_records_appended [OF Cons.prems(2) record_of_valid [OF Some] uc True]
        by (simp add: s1 logFile_applyCommand)
      have t1: "tree s1 = tree (applyCommand s cmd)"
        by (simp add: s1 applyCommand_def appended_def)
      have "tree (foldl applyCommand s1 (acknowledged reqs rest))
          = tree (foldl applyCommand (applyCommand s cmd) (acknowledged reqs rest))"
        by (rule tree_foldl_applyCommand [OF t1])
      then show ?thesis
        using Cons.IH [OF e1 w1 u rn] Some outs ok by simp
    qed
  qed
qed

text \<open>
  The index and the log are consistent: a replay reads the whole log without an error, and
  the index is what applying the records it decodes, in their order, makes of the empty
  index.
\<close>

definition consistent :: "kvServer \<Rightarrow> bool" where
  "consistent s =
     (case wal_records (data (logFile s)) of
        (cs, unread, e) \<Rightarrow>
          unread = [] \<and> e = None
          \<and> tree s = tree (foldl applyCommand \<lparr>tree = btree_New, logFile = logFile s\<rparr> cs))"

lemma run_consistent:
  assumes "at_end s" "consistent s" "list_all utf8_request reqs"
  shows "consistent (fst (run s reqs)) \<and> at_end (fst (run s reqs))"
proof -
  obtain cs where w: "wal_records (data (logFile s)) = (cs, [], None)"
    and t: "tree s = tree (foldl applyCommand \<lparr>tree = btree_New, logFile = logFile s\<rparr> cs)"
    using assms(2) by (auto simp: consistent_def split: prod.splits)
  obtain s' outs where r: "run s reqs = (s', outs)" by (cases "run s reqs")
  note rr = run_records [OF assms(1) w assms(3) r]
  let ?a = "acknowledged reqs outs"
  have "tree s' = tree (foldl applyCommand s ?a)" using rr by simp
  also have "\<dots> = tree (foldl applyCommand
      (foldl applyCommand \<lparr>tree = btree_New, logFile = logFile s'\<rparr> cs) ?a)"
  proof (rule tree_foldl_applyCommand)
    show "tree s = tree (foldl applyCommand \<lparr>tree = btree_New, logFile = logFile s'\<rparr> cs)"
      unfolding t by (rule tree_foldl_applyCommand) simp
  qed
  finally have "tree s' = tree (foldl applyCommand \<lparr>tree = btree_New, logFile = logFile s'\<rparr> (cs @ ?a))"
    by simp
  then show ?thesis using rr by (simp add: consistent_def r)
qed

text \<open>
  C8, as amended. On a device where no write or sync fails, with the handle at the end of
  the log, and for requests whose keys and values are valid UTF-8: a server whose index
  and log are consistent stays so at every reply boundary, that is after every prefix of
  the requests, whether the last reply is a success or an error (the error of a record
  over the frame bound, which is refused before anything is written).
\<close>

theorem index_log_consistent:
  "script (logFile s) = [] \<and> offset (logFile s) = length (data (logFile s))
   \<and> consistent s \<and> list_all utf8_request reqs
   \<Longrightarrow> (\<forall>n. consistent (fst (run s (take n reqs))))"
proof -
  assume a: "script (logFile s) = [] \<and> offset (logFile s) = length (data (logFile s))
    \<and> consistent s \<and> list_all utf8_request reqs"
  then have e: "at_end s" and c: "consistent s" and u: "list_all utf8_request reqs"
    by (simp_all add: at_end_def)
  have "consistent (fst (run s (take n reqs)))" for n
  proof -
    have "list_all utf8_request (take n reqs)"
      using u by (auto simp: list_all_iff dest: in_set_takeD)
    from run_consistent [OF e c this] show ?thesis by simp
  qed
  then show ?thesis by simp
qed


lemma consistent_empty_server: "consistent empty_server"
  by (simp add: consistent_def empty_server_def wal_records_Nil)

lemma utf8_basic_flow: "list_all utf8_request basic_flow"
  by (simp add: basic_flow_def utf8_request_def utf8_cmd_def ValidString_ascii)

theorem index_log_consistent_witness:
  "consistent empty_server
   \<and> consistent (fst (run empty_server [PutRequest ''a'' ''1'']))
   \<and> consistent (fst (run empty_server basic_flow))"
proof -
  have h: "script (logFile empty_server) = []
    \<and> offset (logFile empty_server) = length (data (logFile empty_server))
    \<and> consistent empty_server \<and> list_all utf8_request basic_flow"
    using consistent_empty_server utf8_basic_flow by (simp add: empty_server_def)
  note t = index_log_consistent [OF h]
  have "take 1 basic_flow = [PutRequest ''a'' ''1'']" "take 6 basic_flow = basic_flow"
    by (simp_all add: basic_flow_def)
  then show ?thesis using t [rule_format, of 1] t [rule_format, of 6] consistent_empty_server
    by simp
qed

text \<open>The frame of a record whose key is the byte \<open>0xFF\<close>, and the record a replay decodes
  from it.\<close>

lemma non_utf8_frame:
  "length (json_Marshal \<lparr>Op = ''put'', Key = [CHR 0xFF], Value = ''1''\<rparr>) \<le> maxWALFrameSize"
  "wal_records (frame \<lparr>Op = ''put'', Key = [CHR 0xFF], Value = ''1''\<rparr>)
     = ([\<lparr>Op = ''put'', Key = [CHR 0xEF, CHR 0xBF, CHR 0xBD], Value = ''1''\<rparr>], [], None)"
proof -
  let ?c = "\<lparr>Op = ''put'', Key = [CHR 0xFF], Value = ''1''\<rparr>"
  show l: "length (json_Marshal ?c) \<le> maxWALFrameSize"
    by (simp add: json_eval DecodeRune.simps(2) RuneError_def maxWALFrameSize_def)
  have v: "isValidOp (Op ?c)" by (simp add: isValidOp_def)
  have c: "coerced [CHR 0xFF] = [CHR 0xEF, CHR 0xBF, CHR 0xBD]" "coerced ''1'' = ''1''"
    by (simp_all add: coerced.simps(2) DecodeRune.simps(2) RuneError_def)
  show "wal_records (frame ?c)
      = ([\<lparr>Op = ''put'', Key = [CHR 0xEF, CHR 0xBF, CHR 0xBD], Value = ''1''\<rparr>], [], None)"
    using wal_records_frame_coerced [OF v l, of "[]"] by (simp add: wal_records_Nil c)
qed

lemma Put_non_utf8:
  "Put empty_server [CHR 0xFF] ''1''
     = (\<lparr>tree = [\<lparr>key = [CHR 0xFF], val = ''1''\<rparr>],
         logFile = \<lparr>data = frame \<lparr>Op = ''put'', Key = [CHR 0xFF], Value = ''1''\<rparr>,
           offset = length (frame \<lparr>Op = ''put'', Key = [CHR 0xFF], Value = ''1''\<rparr>),
           script = []\<rparr>\<rparr>,
        Inr (PutReply False))"
proof -
  let ?c = "\<lparr>Op = ''put'', Key = [CHR 0xFF], Value = ''1''\<rparr>"
  have "Put empty_server [CHR 0xFF] ''1''
      = (applyCommand (appended empty_server ?c) ?c,
         Inr (PutReply (btree_Get (tree empty_server) \<lparr>key = [CHR 0xFF], val = []\<rparr> \<noteq> None)))"
    using non_utf8_frame(1) by (simp add: Put_at_end [OF at_end_empty_server] Let_def)
  then show ?thesis
    by (simp add: appended_def applyCommand_def empty_server_def btree_New_def)
qed

lemma Put_sync_failing_server:
  "Put sync_failing_server ''a'' ''1''
     = (\<lparr>tree = [], logFile = \<lparr>data = frame \<lparr>Op = ''put'', Key = ''a'', Value = ''1''\<rparr>,
          offset = 38, script = []\<rparr>\<rparr>,
        Inl (SyncWal DeviceError))"
  by (simp add: Put_def appendWAL_sync_failing_server)

text \<open>
  C8 as stated fails at an error reply and at a success reply. When the device fails the
  sync of an append, \<open>Put\<close> returns the error and leaves the index as it was, but the
  frame of the record is in the log, and a replay decodes it. When the key is not valid
  UTF-8, \<open>Put\<close> replies, the index holds the key as given, and the record in the log has
  another key.
\<close>

theorem index_log_inconsistent_counterexample:
  "consistent sync_failing_server
   \<and> snd (Put sync_failing_server ''a'' ''1'') = Inl (SyncWal DeviceError)
   \<and> tree (fst (Put sync_failing_server ''a'' ''1'')) = []
   \<and> wal_records (data (logFile (fst (Put sync_failing_server ''a'' ''1''))))
       = ([\<lparr>Op = ''put'', Key = ''a'', Value = ''1''\<rparr>], [], None)
   \<and> \<not> consistent (fst (Put sync_failing_server ''a'' ''1''))
   \<and> consistent empty_server
   \<and> snd (Put empty_server [CHR 0xFF] ''1'') = Inr (PutReply False)
   \<and> tree (fst (Put empty_server [CHR 0xFF] ''1'')) = [\<lparr>key = [CHR 0xFF], val = ''1''\<rparr>]
   \<and> wal_records (data (logFile (fst (Put empty_server [CHR 0xFF] ''1''))))
       = ([\<lparr>Op = ''put'', Key = [CHR 0xEF, CHR 0xBF, CHR 0xBD], Value = ''1''\<rparr>], [], None)
   \<and> \<not> consistent (fst (Put empty_server [CHR 0xFF] ''1''))"
proof -
  have a: "consistent sync_failing_server"
    by (simp add: consistent_def sync_failing_server_def wal_records_Nil)
  have b: "\<not> consistent (fst (Put sync_failing_server ''a'' ''1''))"
    by (simp add: Put_sync_failing_server consistent_def wal_records_put_a_1 applyCommand_def
        btree_New_def)
  have c: "\<not> consistent (fst (Put empty_server [CHR 0xFF] ''1''))"
    by (simp add: Put_non_utf8 consistent_def non_utf8_frame(2) applyCommand_def btree_New_def)
  show ?thesis
    using a b c consistent_empty_server
    by (simp add: Put_sync_failing_server Put_non_utf8 wal_records_put_a_1 non_utf8_frame(2))
qed

section \<open>Recovery\<close>

text \<open>A restart: the next process opens the log with the bytes the server left, on a
  device that works.\<close>

definition restart :: "kvServer \<Rightarrow> error + kvServer" where
  "restart s = newKVServer \<lparr>data = data (logFile s), offset = 0, script = []\<rparr>"

text \<open>The value the last of the mutations on a key installed: none when there is no
  mutation on the key or the last one is a \<open>delete\<close>.\<close>

definition last_installed :: "walCommand list \<Rightarrow> string \<Rightarrow> string option" where
  "last_installed cmds k =
     (case find (\<lambda>c. Key c = k) (rev cmds) of
        None \<Rightarrow> None
      | Some c \<Rightarrow> if Op c = ''delete'' then None else Some (Value c))"

lemma stored_foldl_applyCommand:
  assumes "ordered (tree s)" "list_all (\<lambda>c. isValidOp (Op c)) cmds"
  shows "ordered (tree (foldl applyCommand s cmds))
    \<and> stored (tree (foldl applyCommand s cmds)) k =
      (case find (\<lambda>c. Key c = k) (rev cmds) of
         None \<Rightarrow> stored (tree s) k
       | Some c \<Rightarrow> if Op c = ''delete'' then None else Some \<lparr>key = k, val = Value c\<rparr>)"
  using assms(2)
proof (induction cmds rule: rev_induct)
  case Nil
  then show ?case using assms(1) by simp
next
  case (snoc c cmds)
  let ?t = "tree (foldl applyCommand s cmds)"
  have IH: "ordered ?t"
    "stored ?t k =
      (case find (\<lambda>c. Key c = k) (rev cmds) of
         None \<Rightarrow> stored (tree s) k
       | Some c \<Rightarrow> if Op c = ''delete'' then None else Some \<lparr>key = k, val = Value c\<rparr>)"
    using snoc by simp_all
  have v: "isValidOp (Op c)" using snoc.prems by simp
  show ?case
  proof (cases "Op c = ''delete''")
    case True
    then have t: "tree (foldl applyCommand s (cmds @ [c]))
        = fst (btree_Delete ?t \<lparr>key = Key c, val = []\<rparr>)"
      by (simp add: applyCommand_def)
    show ?thesis unfolding t
      using ordered_Delete [OF IH(1)] stored_Delete [OF IH(1), of "\<lparr>key = Key c, val = []\<rparr>" k]
        IH(2) True
      by auto
  next
    case False
    then have "Op c = ''put'' \<or> Op c = ''swap''" using v by (simp add: isValidOp_def)
    then have t: "tree (foldl applyCommand s (cmds @ [c]))
        = fst (btree_ReplaceOrInsert ?t \<lparr>key = Key c, val = Value c\<rparr>)"
      by (auto simp: applyCommand_def)
    show ?thesis unfolding t
      using ordered_ReplaceOrInsert [OF IH(1)]
        stored_ReplaceOrInsert [OF IH(1), of "\<lparr>key = Key c, val = Value c\<rparr>" k] IH(2) False
      by auto
  qed
qed

lemma acknowledged_valid: "list_all (\<lambda>c. isValidOp (Op c)) (acknowledged reqs outs)"
proof (induction reqs outs rule: acknowledged.induct)
  case (1 req reqs out outs)
  then show ?case
    by (cases "record_of req") (auto dest: record_of_valid)
qed simp_all

lemma Get_last_installed:
  assumes "tree s = tree (foldl applyCommand s0 cmds)" "tree s0 = btree_New"
    "list_all (\<lambda>c. isValidOp (Op c)) cmds"
  shows "Get s k = (s, Inr (case last_installed cmds k of
                             None \<Rightarrow> GetReply False []
                           | Some v \<Rightarrow> GetReply True v))"
proof -
  have o: "ordered (tree s0)" using assms(2) by (simp add: btree_New_def)
  have e: "stored (tree s0) k = None" using assms(2) by (simp add: btree_New_def stored_def)
  note f = stored_foldl_applyCommand [OF o assms(3), of k, folded assms(1)]
  have g: "btree_Get (tree s) \<lparr>key = k, val = []\<rparr> = stored (tree s) k"
    using btree_Get_stored [of "tree s" "\<lparr>key = k, val = []\<rparr>"] f by simp
  show ?thesis
    using f e
    by (simp add: Get_def g last_installed_def split: option.splits)
qed

lemma restart_run:
  assumes "tree s = btree_New" "data (logFile s) = []" "offset (logFile s) = 0"
    "script (logFile s) = []" "list_all utf8_request reqs"
  shows "wal_records (data (logFile (fst (run s reqs))))
      = (acknowledged reqs (snd (run s reqs)), [], None)"
    "restart (fst (run s reqs)) = Inr (fst (run s reqs))"
    "tree (fst (run s reqs)) = tree (foldl applyCommand s (acknowledged reqs (snd (run s reqs))))"
proof -
  obtain s' outs where r: "run s reqs = (s', outs)" by (cases "run s reqs")
  have e: "at_end s" using assms(2,3,4) by (simp add: at_end_def)
  have w: "wal_records (data (logFile s)) = ([], [], None)"
    using assms(2) by (simp add: wal_records_Nil)
  note rr = run_records [OF e w assms(5) r]
  let ?a = "acknowledged reqs outs"
  let ?disk = "\<lparr>data = data (logFile s'), offset = 0, script = []\<rparr>"
  show w': "wal_records (data (logFile (fst (run s reqs))))
      = (acknowledged reqs (snd (run s reqs)), [], None)"
    using rr by (simp add: r)
  show t': "tree (fst (run s reqs))
      = tree (foldl applyCommand s (acknowledged reqs (snd (run s reqs))))"
    using rr by (simp add: r)
  have n: "newKVServer ?disk = Inr (recovered ?disk ?a)"
    using newKVServer_records [of ?disk ?a "[]" None] rr by simp
  have "tree (recovered ?disk ?a) = tree (foldl applyCommand s ?a)"
    unfolding tree_recovered by (rule tree_foldl_applyCommand) (simp add: assms(1))
  then have t: "tree (recovered ?disk ?a) = tree s'" using rr by simp
  have l: "logFile (recovered ?disk ?a) = logFile s'"
    using rr by (simp add: recovered_def at_end_def)
  have "recovered ?disk ?a = s'" using t l by simp
  then show "restart (fst (run s reqs)) = Inr (fst (run s reqs))"
    using n by (simp add: restart_def r)
qed

text \<open>
  C1, as amended. A server that starts with an empty index on an empty log, on a device
  where no operation fails, answers requests whose keys and values are valid UTF-8, and
  is restarted. The restart succeeds; the replay decodes exactly the records of the
  acknowledged mutations, in their order; the index of the restarted server is what
  applying the replayed records in this order makes of the empty index, and it is the
  index the server had before the restart; and \<open>Get\<close> on the restarted server returns,
  for every key, the value the last acknowledged mutation on the key installed, and
  absence when there is none or the last one is a \<open>delete\<close>.
\<close>

theorem recovered_index_and_get:
  "tree s = btree_New \<and> data (logFile s) = [] \<and> offset (logFile s) = 0
   \<and> script (logFile s) = [] \<and> list_all utf8_request reqs
   \<Longrightarrow> (\<exists>s2. restart (fst (run s reqs)) = Inr s2
          \<and> fst (wal_records (data (logFile s2))) = acknowledged reqs (snd (run s reqs))
          \<and> tree s2 = tree (foldl applyCommand \<lparr>tree = btree_New, logFile = logFile s2\<rparr>
                             (fst (wal_records (data (logFile s2)))))
          \<and> tree s2 = tree (fst (run s reqs))
          \<and> (\<forall>k. Get s2 k =
                 (s2, Inr (case last_installed (acknowledged reqs (snd (run s reqs))) k of
                             None \<Rightarrow> GetReply False []
                           | Some v \<Rightarrow> GetReply True v))))"
proof -
  assume a: "tree s = btree_New \<and> data (logFile s) = [] \<and> offset (logFile s) = 0
    \<and> script (logFile s) = [] \<and> list_all utf8_request reqs"
  then have h: "tree s = btree_New" "data (logFile s) = []" "offset (logFile s) = 0"
    "script (logFile s) = []" "list_all utf8_request reqs"
    by simp_all
  let ?s2 = "fst (run s reqs)"
  let ?a = "acknowledged reqs (snd (run s reqs))"
  note r = restart_run [OF h]
  have w: "fst (wal_records (data (logFile ?s2))) = ?a" using r(1) by simp
  have t: "tree ?s2 = tree (foldl applyCommand \<lparr>tree = btree_New, logFile = logFile ?s2\<rparr> ?a)"
    unfolding r(3) by (rule tree_foldl_applyCommand) (simp add: h(1))
  have g: "Get ?s2 k =
      (?s2, Inr (case last_installed ?a k of None \<Rightarrow> GetReply False [] | Some v \<Rightarrow> GetReply True v))"
    for k
    by (rule Get_last_installed [OF r(3) h(1) acknowledged_valid])
  show ?thesis
    using r(2) w t g by (intro exI [of _ ?s2]) simp
qed


text \<open>Two keys, one swapped and one deleted, and a key never written.\<close>

lemma acknowledged_all:
  assumes "at_end s" "list_all fits_frame reqs"
  shows "acknowledged reqs (snd (run s reqs)) = List.map_filter record_of reqs"
  using assms
proof (induction reqs arbitrary: s)
  case Nil
  then show ?case by (simp add: List.map_filter_simps)
next
  case (Cons req reqs)
  obtain s1 out where sv: "serve s req = (s1, out)" by (cases "serve s req")
  have f: "at_end s1" "\<not> isl out" using serve_fits [OF Cons.prems(1) _ sv] Cons.prems(2) by simp_all
  have "acknowledged reqs (snd (run s1 reqs)) = List.map_filter record_of reqs"
    using Cons.IH [OF f(1)] Cons.prems(2) by simp
  then show ?case using sv f(2)
    by (cases "record_of req") (simp_all add: split_beta List.map_filter_simps)
qed

definition durable_flow :: "request list" where
  "durable_flow = [PutRequest ''a'' ''1'', PutRequest ''b'' ''2'', SwapRequest ''a'' ''3'',
     GetRequest ''a'', DeleteRequest ''b'']"

theorem recovered_index_and_get_witness:
  "\<exists>s2. restart (fst (run empty_server durable_flow)) = Inr s2
     \<and> fst (wal_records (data (logFile s2)))
        = [\<lparr>Op = ''put'', Key = ''a'', Value = ''1''\<rparr>, \<lparr>Op = ''put'', Key = ''b'', Value = ''2''\<rparr>,
           \<lparr>Op = ''swap'', Key = ''a'', Value = ''3''\<rparr>, \<lparr>Op = ''delete'', Key = ''b'', Value = []\<rparr>]
     \<and> tree s2 = [\<lparr>key = ''a'', val = ''3''\<rparr>]
     \<and> Get s2 ''a'' = (s2, Inr (GetReply True ''3''))
     \<and> Get s2 ''b'' = (s2, Inr (GetReply False []))
     \<and> Get s2 ''c'' = (s2, Inr (GetReply False []))"
proof -
  let ?a = "[\<lparr>Op = ''put'', Key = ''a'', Value = ''1''\<rparr>, \<lparr>Op = ''put'', Key = ''b'', Value = ''2''\<rparr>,
       \<lparr>Op = ''swap'', Key = ''a'', Value = ''3''\<rparr>, \<lparr>Op = ''delete'', Key = ''b'', Value = []\<rparr>]"
  have h: "tree empty_server = btree_New \<and> data (logFile empty_server) = []
    \<and> offset (logFile empty_server) = 0 \<and> script (logFile empty_server) = []
    \<and> list_all utf8_request durable_flow"
    by (simp add: empty_server_def durable_flow_def utf8_request_def utf8_cmd_def ValidString_ascii)
  have f: "list_all fits_frame durable_flow"
    by (simp add: durable_flow_def fits_frame_def json_eval maxWALFrameSize_def)
  have a: "acknowledged durable_flow (snd (run empty_server durable_flow)) = ?a"
    unfolding acknowledged_all [OF at_end_empty_server f]
    by (simp add: durable_flow_def List.map_filter_simps)
  have l: "last_installed ?a ''a'' = Some ''3''" "last_installed ?a ''b'' = None"
    "last_installed ?a ''c'' = None"
    by (simp_all add: last_installed_def)
  from recovered_index_and_get [OF h] obtain s2 where
    r: "restart (fst (run empty_server durable_flow)) = Inr s2"
      "fst (wal_records (data (logFile s2))) = ?a"
      "tree s2 = tree (foldl applyCommand \<lparr>tree = btree_New, logFile = logFile s2\<rparr>
                         (fst (wal_records (data (logFile s2)))))"
      "\<And>k. Get s2 k = (s2, Inr (case last_installed ?a k of
                             None \<Rightarrow> GetReply False []
                           | Some v \<Rightarrow> GetReply True v))"
    unfolding a by blast
  have t: "tree s2 = [\<lparr>key = ''a'', val = ''3''\<rparr>]"
    unfolding r(3) r(2) by (simp add: applyCommand_def btree_New_def Less_def)
  show ?thesis
    using r(1,2) t r(4) [of "''a''"] r(4) [of "''b''"] r(4) [of "''c''"]
    by (intro exI [of _ s2]) (simp add: l)
qed

lemma restart_one_record:
  assumes "wal_records bs = ([cmd], [], None)"
  shows "restart \<lparr>tree = t, logFile = \<lparr>data = bs, offset = n, script = sc\<rparr>\<rparr>
     = Inr (recovered \<lparr>data = bs, offset = 0, script = []\<rparr> [cmd])"
  using newKVServer_records [of "\<lparr>data = bs, offset = 0, script = []\<rparr>" "[cmd]" "[]" None] assms
  by (simp add: restart_def)

text \<open>
  C1 as stated fails in two ways. A \<open>Put\<close> of a key that is not valid UTF-8 is
  acknowledged, and \<open>Get\<close> of the key after the restart finds nothing: the record in the
  log has another key. When the device fails the sync of an append, \<open>Put\<close> returns the
  error, and after the restart \<open>Get\<close> returns the value of the mutation that was never
  acknowledged.
\<close>

theorem recovered_get_differs_counterexample:
  "snd (run empty_server [PutRequest [CHR 0xFF] ''1'']) = [Inr (PutReply False)]
   \<and> (\<exists>s2. restart (fst (run empty_server [PutRequest [CHR 0xFF] ''1''])) = Inr s2
         \<and> Get s2 [CHR 0xFF] = (s2, Inr (GetReply False [])))
   \<and> tree sync_failing_server = btree_New \<and> data (logFile sync_failing_server) = []
   \<and> snd (run sync_failing_server [PutRequest ''a'' ''1'']) = [Inl (SyncWal DeviceError)]
   \<and> (\<exists>s2. restart (fst (run sync_failing_server [PutRequest ''a'' ''1''])) = Inr s2
         \<and> Get s2 ''a'' = (s2, Inr (GetReply True ''1'')))"
proof -
  let ?c = "\<lparr>Op = ''put'', Key = [CHR 0xFF], Value = ''1''\<rparr>"
  let ?c' = "\<lparr>Op = ''put'', Key = [CHR 0xEF, CHR 0xBF, CHR 0xBD], Value = ''1''\<rparr>"
  let ?d = "\<lparr>Op = ''put'', Key = ''a'', Value = ''1''\<rparr>"
  let ?r1 = "recovered \<lparr>data = frame ?c, offset = 0, script = []\<rparr> [?c']"
  let ?r2 = "recovered \<lparr>data = frame ?d, offset = 0, script = []\<rparr> [?d]"
  have a: "run empty_server [PutRequest [CHR 0xFF] ''1'']
      = (\<lparr>tree = [\<lparr>key = [CHR 0xFF], val = ''1''\<rparr>],
          logFile = \<lparr>data = frame ?c, offset = length (frame ?c), script = []\<rparr>\<rparr>,
         [Inr (PutReply False)])"
    by (simp add: serve_def Put_non_utf8)
  have b: "run sync_failing_server [PutRequest ''a'' ''1'']
      = (\<lparr>tree = [], logFile = \<lparr>data = frame ?d, offset = 38, script = []\<rparr>\<rparr>,
         [Inl (SyncWal DeviceError)])"
    by (simp add: serve_def Put_sync_failing_server)
  have g1: "Get ?r1 [CHR 0xFF] = (?r1, Inr (GetReply False []))"
    by (simp add: Get_def tree_recovered applyCommand_def btree_New_def Less_def)
  have g2: "Get ?r2 ''a'' = (?r2, Inr (GetReply True ''1''))"
    by (simp add: Get_def tree_recovered applyCommand_def btree_New_def Less_def)
  have e1: "\<exists>s2. restart (fst (run empty_server [PutRequest [CHR 0xFF] ''1''])) = Inr s2
         \<and> Get s2 [CHR 0xFF] = (s2, Inr (GetReply False []))"
    unfolding a using restart_one_record [OF non_utf8_frame(2)] g1 by simp
  have e2: "\<exists>s2. restart (fst (run sync_failing_server [PutRequest ''a'' ''1''])) = Inr s2
         \<and> Get s2 ''a'' = (s2, Inr (GetReply True ''1''))"
    unfolding b using restart_one_record [OF wal_records_put_a_1] g2 by simp
  have o1: "snd (run empty_server [PutRequest [CHR 0xFF] ''1'']) = [Inr (PutReply False)]"
    unfolding a by simp
  have o2: "snd (run sync_failing_server [PutRequest ''a'' ''1'']) = [Inl (SyncWal DeviceError)]"
    unfolding b by simp
  have d: "tree sync_failing_server = btree_New" "data (logFile sync_failing_server) = []"
    by (simp_all add: sync_failing_server_def)
  from o1 e1 d o2 e2 show ?thesis by blast
qed

section \<open>A trailing partial frame\<close>

text \<open>
  Scenario S5 of the spec: the log holds the frame of \<open>PUT x 1\<close>, then a length of 10 and
  three bytes of payload. \<open>s5_server\<close> is the server a start on this log gives.
\<close>

definition s5_disk :: File where
  "s5_disk = \<lparr>data = frame \<lparr>Op = ''put'', Key = ''x'', Value = ''1''\<rparr>
                 @ [CHR 0x00, CHR 0x00, CHR 0x00, CHR 0x0A] @ ''abc'',
               offset = 0, script = []\<rparr>"

definition s5_server :: kvServer where
  "s5_server = \<lparr>tree = [\<lparr>key = ''x'', val = ''1''\<rparr>],
     logFile = s5_disk\<lparr>offset := length (data s5_disk)\<rparr>\<rparr>"

lemma put_x_1:
  "isValidOp (Op \<lparr>Op = ''put'', Key = ''x'', Value = ''1''\<rparr>)"
  "utf8_cmd \<lparr>Op = ''put'', Key = ''x'', Value = ''1''\<rparr>"
  "length (json_Marshal \<lparr>Op = ''put'', Key = ''x'', Value = ''1''\<rparr>) \<le> maxWALFrameSize"
  by (simp_all add: isValidOp_def utf8_cmd_def ValidString_ascii json_eval maxWALFrameSize_def)

lemma wal_records_partial_frame:
  "wal_records ([CHR 0x00, CHR 0x00, CHR 0x00, CHR 0x0A] @ ''abc'')
     = ([], [CHR 0x00, CHR 0x00, CHR 0x00, CHR 0x0A] @ ''abc'', None)"
  by (subst wal_records.simps) (simp add: Uint32_def maxWALFrameSize_def)

lemma wal_records_length_only:
  "wal_records [CHR 0x00, CHR 0x00, CHR 0x00, CHR 0x0A]
     = ([], [CHR 0x00, CHR 0x00, CHR 0x00, CHR 0x0A], Some (ReadWalFramePayload EOF))"
  by (subst wal_records.simps) (simp add: Uint32_def maxWALFrameSize_def)

lemma wal_records_behind_partial_frame:
  "wal_records ([CHR 0x00, CHR 0x00, CHR 0x00, CHR 0x0A] @ ''abc''
       @ frame \<lparr>Op = ''put'', Key = ''y'', Value = ''2''\<rparr>)
     = ([], [CHR 0x00, CHR 0x00, CHR 0x00, CHR 0x0A] @ ''abc''
              @ frame \<lparr>Op = ''put'', Key = ''y'', Value = ''2''\<rparr>,
        Some (DecodeWalCommand JSONError))"
proof -
  let ?f = "frame \<lparr>Op = ''put'', Key = ''y'', Value = ''2''\<rparr>"
  let ?p = "''abc'' @ take 7 ?f"
  have lf: "length ?f = 38" by (simp add: frame_def length_PutUint32 json_eval)
  have len: "length ?p = 10" by (simp add: lf)
  have t: "take 7 ?f = [CHR 0x00, CHR 0x00, CHR 0x00, CHR 0x22, CHR ''{'', DQ, CHR ''o'']"
    by (simp add: frame_def json_eval bytes_eval)
  have d: "decodeCommand ?p = Inl (DecodeWalCommand JSONError)"
    unfolding t by (simp add: decodeCommand_def unmarshal_eval)
  have h: "PutUint32 (uint32 10) = [CHR 0x00, CHR 0x00, CHR 0x00, CHR 0x0A]"
    by (simp add: bytes_eval)
  have eq: "[CHR 0x00, CHR 0x00, CHR 0x00, CHR 0x0A] @ ''abc'' @ ?f
     = PutUint32 (uint32 (length ?p)) @ ?p @ drop 7 ?f"
    unfolding len h by simp
  have m: "length ?p \<le> maxWALFrameSize" unfolding len by (simp add: maxWALFrameSize_def)
  show ?thesis unfolding eq by (rule wal_records_unknown_op [OF m d])
qed

lemma newKVServer_s5_disk: "newKVServer s5_disk = Inr s5_server"
proof -
  let ?c = "\<lparr>Op = ''put'', Key = ''x'', Value = ''1''\<rparr>"
  have w: "wal_records (data s5_disk)
      = ([?c], [CHR 0x00, CHR 0x00, CHR 0x00, CHR 0x0A] @ ''abc'', None)"
    using wal_records_frame [OF put_x_1, of "[CHR 0x00, CHR 0x00, CHR 0x00, CHR 0x0A] @ ''abc''"]
    by (simp only: s5_disk_def File.simps wal_records_partial_frame prod.case)
  have s: "script s5_disk = []" by (simp add: s5_disk_def)
  have "recovered s5_disk [?c] = s5_server"
    by (simp add: recovered_def s5_server_def applyCommand_def btree_New_def)
  then show ?thesis using newKVServer_records [OF s w] by simp
qed

lemma at_end_s5_server: "at_end s5_server"
  by (simp add: at_end_def s5_server_def s5_disk_def)

lemma Put_s5_server:
  "Put s5_server ''y'' ''2''
     = (applyCommand (appended s5_server \<lparr>Op = ''put'', Key = ''y'', Value = ''2''\<rparr>)
          \<lparr>Op = ''put'', Key = ''y'', Value = ''2''\<rparr>, Inr (PutReply False))"
proof -
  have l: "length (json_Marshal \<lparr>Op = ''put'', Key = ''y'', Value = ''2''\<rparr>) \<le> maxWALFrameSize"
    by (simp add: json_eval maxWALFrameSize_def)
  have g: "btree_Get (tree s5_server) \<lparr>key = ''y'', val = []\<rparr> = None"
    by (simp add: s5_server_def Less_def)
  show ?thesis using l g by (simp add: Put_at_end [OF at_end_s5_server] Let_def)
qed

lemma restart_after_s5:
  "restart (fst (Put s5_server ''y'' ''2'')) = Inl (DecodeWalCommand JSONError)"
proof -
  let ?c = "\<lparr>Op = ''put'', Key = ''x'', Value = ''1''\<rparr>"
  let ?y = "\<lparr>Op = ''put'', Key = ''y'', Value = ''2''\<rparr>"
  let ?tail = "[CHR 0x00, CHR 0x00, CHR 0x00, CHR 0x0A] @ ''abc'' @ frame ?y"
  have d: "data (logFile (fst (Put s5_server ''y'' ''2''))) = frame ?c @ ?tail"
    unfolding Put_s5_server
    by (simp add: logFile_applyCommand appended_def s5_server_def s5_disk_def)
  have w: "wal_records (frame ?c @ ?tail) = ([?c], ?tail, Some (DecodeWalCommand JSONError))"
    using wal_records_frame [OF put_x_1, of ?tail]
    by (simp only: wal_records_behind_partial_frame prod.case)
  show ?thesis
    unfolding restart_def d
    using newKVServer_records [of "\<lparr>data = frame ?c @ ?tail, offset = 0, script = []\<rparr>" "[?c]"
        ?tail "Some (DecodeWalCommand JSONError)"] w
    by simp
qed

lemma newKVServer_length_only:
  "newKVServer \<lparr>data = frame \<lparr>Op = ''put'', Key = ''x'', Value = ''1''\<rparr>
       @ [CHR 0x00, CHR 0x00, CHR 0x00, CHR 0x0A], offset = 0, script = []\<rparr>
     = Inl (ReadWalFramePayload EOF)"
proof -
  let ?c = "\<lparr>Op = ''put'', Key = ''x'', Value = ''1''\<rparr>"
  let ?tail = "[CHR 0x00, CHR 0x00, CHR 0x00, CHR 0x0A]"
  have w: "wal_records (frame ?c @ ?tail) = ([?c], ?tail, Some (ReadWalFramePayload EOF))"
    using wal_records_frame [OF put_x_1, of ?tail]
    by (simp only: wal_records_length_only prod.case)
  show ?thesis
    using newKVServer_records [of "\<lparr>data = frame ?c @ ?tail, offset = 0, script = []\<rparr>" "[?c]"
        ?tail "Some (ReadWalFramePayload EOF)"] w
    by simp
qed

text \<open>
  C4 does not hold of the program. On the log of scenario S5 the start succeeds, \<open>Get\<close>
  of \<open>x\<close> returns \<open>1\<close> and the next \<open>Put\<close> is acknowledged. But \<open>newKVServer\<close> leaves
  the seven bytes of the partial frame in the file and moves the handle behind them, so
  the frame of the acknowledged \<open>Put\<close> is written after them; at the next start the
  replay reads the length 10, takes the three bytes and the first seven bytes of the new
  frame for a payload, and \<open>newKVServer\<close> fails with the error of the decoder: the
  record is not recovered, and the server does not start. And when the partial frame is a
  length with no byte of payload, the start fails at once: the second read returns
  \<open>EOF\<close>, which \<open>replayWAL\<close> takes for the end of the log only at a frame boundary.
\<close>

theorem trailing_partial_frame_S5:
  "newKVServer s5_disk = Inr s5_server
   \<and> Get s5_server ''x'' = (s5_server, Inr (GetReply True ''1''))
   \<and> snd (Put s5_server ''y'' ''2'') = Inr (PutReply False)
   \<and> data (logFile (fst (Put s5_server ''y'' ''2'')))
       = data s5_disk @ frame \<lparr>Op = ''put'', Key = ''y'', Value = ''2''\<rparr>
   \<and> restart (fst (Put s5_server ''y'' ''2'')) = Inl (DecodeWalCommand JSONError)
   \<and> newKVServer \<lparr>data = frame \<lparr>Op = ''put'', Key = ''x'', Value = ''1''\<rparr>
         @ [CHR 0x00, CHR 0x00, CHR 0x00, CHR 0x0A], offset = 0, script = []\<rparr>
       = Inl (ReadWalFramePayload EOF)"
proof -
  have g: "Get s5_server ''x'' = (s5_server, Inr (GetReply True ''1''))"
    by (simp add: Get_def s5_server_def Less_def)
  have d: "data (logFile (fst (Put s5_server ''y'' ''2'')))
       = data s5_disk @ frame \<lparr>Op = ''put'', Key = ''y'', Value = ''2''\<rparr>"
    unfolding Put_s5_server
    by (simp add: logFile_applyCommand appended_def s5_server_def)
  show ?thesis
    using newKVServer_s5_disk g d restart_after_s5 newKVServer_length_only
    by (simp add: Put_s5_server)
qed

end
